theory Spec2Isabelle
  imports Main "HOL-Library.Word"
begin

unbundle bit_operations_syntax

section \<open>The I2C master engine of LaunchPad.c\<close>

text \<open>
  The functions \<^verbatim>\<open>I2C_fill_tx_fifo\<close>, \<^verbatim>\<open>I2C_mstr_send_internal\<close>,
  \<^verbatim>\<open>I2C_mstr_read_internal\<close> and the ten public wrappers of
  \<^verbatim>\<open>src/lab2_part3/LaunchPad.c\<close> talk to the controller through volatile
  registers. Every register access and every call of \<^verbatim>\<open>usec_delay\<close> is an event;
  a call takes the events so far and returns them extended. What a read returns is
  decided by the hardware, a function of the events so far.
\<close>

subsection \<open>Registers, events, hardware\<close>

datatype reg = MSR | MFIFOSR | MFIFOCTL | MTXDATA | MRXDATA | MSA | MCTR

datatype event = Rd reg "32 word" | Wr reg "32 word" | Delay "32 word"

type_synonym trace = "event list"

type_synonym hw = "trace \<Rightarrow> reg \<Rightarrow> 32 word"

text \<open>
  The bit masks, field values and field offsets come from the vendor's device header,
  which is not part of the repository. They are a parameter of the model: one field for
  each macro the I2C functions use, under the macro's name without its \<^verbatim>\<open>I2C_\<close>
  prefix.
\<close>

record hdr =
  MSR_IDLE_MASK :: "32 word"
  MSR_IDLE_CLEARED :: "32 word"
  MSR_BUSY_MASK :: "32 word"
  MSR_BUSY_SET :: "32 word"
  MSR_ARBLST_MASK :: "32 word"
  MSR_ARBLST_SET :: "32 word"
  MSR_ERR_MASK :: "32 word"
  MSR_ERR_SET :: "32 word"
  MFIFOCTL_TXFLUSH_FLUSH :: "32 word"
  MFIFOCTL_TXFLUSH_MASK :: "32 word"
  MFIFOCTL_RXFLUSH_FLUSH :: "32 word"
  MFIFOCTL_RXFLUSH_MASK :: "32 word"
  MFIFOSR_TXFIFOCNT_MASK :: "32 word"
  MFIFOSR_TXFIFOCNT_MAXIMUM :: "32 word"
  MFIFOSR_RXFIFOCNT_MASK :: "32 word"
  MFIFOSR_RXFIFOCNT_MINIMUM :: "32 word"
  MFIFOSR_RXFIFOCNT_OFS :: nat
  MSA_SADDR_OFS :: nat
  MSA_DIR_TRANSMIT :: "32 word"
  MSA_DIR_RECEIVE :: "32 word"
  MCTR_START_ENABLE :: "32 word"
  MCTR_STOP_ENABLE :: "32 word"
  MCTR_ACK_DISABLE :: "32 word"
  MCTR_ACK_ENABLE :: "32 word"
  MCTR_BURSTRUN_ENABLE :: "32 word"
  MCTR_MBLEN_OFS :: nat
  MCTR_MBLEN_MASK :: "32 word"
  MRXDATA_VALUE_MASK :: "32 word"

text \<open>The values of the MSPM0G3507 header, used where a theorem is run on a concrete device.\<close>

definition mspm0_hdr :: hdr where
  "mspm0_hdr = \<lparr>
     MSR_IDLE_MASK = 0x20, MSR_IDLE_CLEARED = 0,
     MSR_BUSY_MASK = 0x01, MSR_BUSY_SET = 0x01,
     MSR_ARBLST_MASK = 0x10, MSR_ARBLST_SET = 0x10,
     MSR_ERR_MASK = 0x02, MSR_ERR_SET = 0x02,
     MFIFOCTL_TXFLUSH_FLUSH = 0x80, MFIFOCTL_TXFLUSH_MASK = 0x80,
     MFIFOCTL_RXFLUSH_FLUSH = 0x8000, MFIFOCTL_RXFLUSH_MASK = 0x8000,
     MFIFOSR_TXFIFOCNT_MASK = 0x0F00, MFIFOSR_TXFIFOCNT_MAXIMUM = 0x0800,
     MFIFOSR_RXFIFOCNT_MASK = 0x0F, MFIFOSR_RXFIFOCNT_MINIMUM = 0,
     MFIFOSR_RXFIFOCNT_OFS = 0,
     MSA_SADDR_OFS = 1, MSA_DIR_TRANSMIT = 0, MSA_DIR_RECEIVE = 1,
     MCTR_START_ENABLE = 0x02, MCTR_STOP_ENABLE = 0x04,
     MCTR_ACK_DISABLE = 0, MCTR_ACK_ENABLE = 0x08,
     MCTR_BURSTRUN_ENABLE = 0x01,
     MCTR_MBLEN_OFS = 16, MCTR_MBLEN_MASK = 0x0FFF0000,
     MRXDATA_VALUE_MASK = 0xFF \<rparr>"

subsection \<open>Return codes and the burst type\<close>

text \<open>The return codes and the timeout count of the project header (LaunchPad.h).\<close>

definition I2C_SUCCESS :: "32 word" where "I2C_SUCCESS = 0"
definition I2C_ERR_ARB_LOST :: "32 word" where "I2C_ERR_ARB_LOST = 1"
definition I2C_ERR_NACK :: "32 word" where "I2C_ERR_NACK = 2"
definition I2C_FIFO_LOAD_ERROR :: "32 word" where "I2C_FIFO_LOAD_ERROR = 3"
definition I2C_ERR_TIMEOUT :: "32 word" where "I2C_ERR_TIMEOUT = 4"
definition I2C_TIMEOUT_COUNT :: "32 word" where "I2C_TIMEOUT_COUNT = 200000"

datatype i2c_burst_type_t = I2C_NORMAL | I2C_START | I2C_CONTINUE | I2C_END

subsection \<open>The polling loops\<close>

text \<open>
  The two loops with a countdown, the idle wait of both engines and the completion wait
  of the send engine:
  \<^verbatim>\<open>while ((I2C1->MASTER.MSR & mask) == pat) { if (--timeout == 0) return I2C_ERR_TIMEOUT; usec_delay(10); }\<close>
  The result is \<open>True\<close> when the countdown reached zero (the function returns there).
  The countdown is a 32-bit unsigned value, decremented before it is compared.
\<close>

function poll_timeout :: "hw \<Rightarrow> 32 word \<Rightarrow> 32 word \<Rightarrow> 32 word \<Rightarrow> trace \<Rightarrow> bool \<times> trace" where
  "poll_timeout h msk pat timeout tr =
     (if h tr MSR AND msk = pat then
        (if timeout - 1 = 0 then (True, tr @ [Rd MSR (h tr MSR)])
         else poll_timeout h msk pat (timeout - 1) (tr @ [Rd MSR (h tr MSR), Delay 10]))
      else (False, tr @ [Rd MSR (h tr MSR)]))"
  by pat_completeness auto
termination
proof (relation "measure (\<lambda>(h, msk, pat, timeout, tr). unat (timeout - 1))")
  show "wf (measure (\<lambda>(h, msk, pat, timeout, tr). unat (timeout - 1)))"
    by simp
next
  fix h :: hw and msk pat timeout :: "32 word" and tr :: trace
  assume running: "timeout - 1 \<noteq> 0"
  have "unat (x - 1) < unat x" if "x \<noteq> 0" for x :: "32 word"
    using that by (simp add: unat_minus_one unat_gt_0)
  from this [of "timeout - 1"] running
  show "((h, msk, pat, timeout - 1, tr @ [Rd MSR (h tr MSR), Delay 10]),
         (h, msk, pat, timeout, tr))
        \<in> measure (\<lambda>(h, msk, pat, timeout, tr). unat (timeout - 1))"
    by simp
qed

declare poll_timeout.simps [simp del]

text \<open>
  The loops without a countdown, \<^verbatim>\<open>while (cond(I2C1->MASTER.r));\<close>: they read the
  register until the condition is false, and never return when it stays true.
\<close>

partial_function (option) spin :: "hw \<Rightarrow> reg \<Rightarrow> (32 word \<Rightarrow> bool) \<Rightarrow> trace \<Rightarrow> trace option" where
  "spin h r stay tr =
     (if stay (h tr r) then spin h r stay (tr @ [Rd r (h tr r)])
      else Some (tr @ [Rd r (h tr r)]))"

text \<open>
  A read-modify-write of a register, \<^verbatim>\<open>I2C1->MASTER.r |= bits\<close> and
  \<^verbatim>\<open>I2C1->MASTER.r &= ~bits\<close>: one read, then one write.
\<close>

definition set_bits :: "hw \<Rightarrow> reg \<Rightarrow> 32 word \<Rightarrow> trace \<Rightarrow> trace" where
  "set_bits h r bits tr = tr @ [Rd r (h tr r), Wr r (h tr r OR bits)]"

definition clear_bits :: "hw \<Rightarrow> reg \<Rightarrow> 32 word \<Rightarrow> trace \<Rightarrow> trace" where
  "clear_bits h r bits tr = tr @ [Rd r (h tr r), Wr r (h tr r AND NOT bits)]"

subsection \<open>I2C_fill_tx_fifo\<close>

text \<open>
  \<^verbatim>\<open>for (uint8_t i = 0; i < count; i++) { if ((MFIFOSR & TXFIFOCNT_MASK) == 0) ret_status = 0; MTXDATA = buffer[i]; }\<close>
  The index is 8 bits wide and the count 16 bits wide, so the loop does not end for a
  count above 255; the engine passes its 8-bit length. The buffer is the memory behind
  the pointer: \<open>buffer k\<close> is the byte \<^verbatim>\<open>buffer[k]\<close>.
\<close>

partial_function (option) fill_loop ::
  "hdr \<Rightarrow> hw \<Rightarrow> (nat \<Rightarrow> 8 word) \<Rightarrow> 16 word \<Rightarrow> 8 word \<Rightarrow> 32 word \<Rightarrow> trace \<Rightarrow> (32 word \<times> trace) option"
where
  "fill_loop L h buffer count i ret_status tr =
     (if unat i < unat count then
        fill_loop L h buffer count (i + 1)
          (if h tr MFIFOSR AND MFIFOSR_TXFIFOCNT_MASK L = 0 then 0 else ret_status)
          (tr @ [Rd MFIFOSR (h tr MFIFOSR), Wr MTXDATA (ucast (buffer (unat i)))])
      else Some (ret_status, tr))"

definition I2C_fill_tx_fifo ::
  "hdr \<Rightarrow> hw \<Rightarrow> (nat \<Rightarrow> 8 word) \<Rightarrow> 16 word \<Rightarrow> trace \<Rightarrow> (32 word \<times> trace) option"
where
  "I2C_fill_tx_fifo L h buffer count tr = fill_loop L h buffer count 0 1 tr"

subsection \<open>The control word and the status flags\<close>

text \<open>The \<^verbatim>\<open>switch (i2c_type)\<close> of both engines, for the four values of the enum.\<close>

fun i2c_transaction_mode :: "hdr \<Rightarrow> i2c_burst_type_t \<Rightarrow> 32 word" where
  "i2c_transaction_mode L I2C_NORMAL = MCTR_START_ENABLE L OR MCTR_STOP_ENABLE L"
| "i2c_transaction_mode L I2C_START = MCTR_START_ENABLE L"
| "i2c_transaction_mode L I2C_CONTINUE = MCTR_START_ENABLE L"
| "i2c_transaction_mode L I2C_END = MCTR_START_ENABLE L OR MCTR_STOP_ENABLE L"

text \<open>
  The values written to MCTR and MSA. The 8-bit length and address are widened before
  they are shifted, as C's integer promotion does.
\<close>

definition send_mctr :: "hdr \<Rightarrow> 8 word \<Rightarrow> i2c_burst_type_t \<Rightarrow> 32 word" where
  "send_mctr L len i2c_type =
     MCTR_ACK_DISABLE L OR i2c_transaction_mode L i2c_type OR MCTR_BURSTRUN_ENABLE L OR
     (push_bit (MCTR_MBLEN_OFS L) (ucast len) AND MCTR_MBLEN_MASK L)"

definition read_mctr :: "hdr \<Rightarrow> 8 word \<Rightarrow> i2c_burst_type_t \<Rightarrow> 32 word" where
  "read_mctr L len i2c_type =
     MCTR_ACK_ENABLE L OR i2c_transaction_mode L i2c_type OR MCTR_BURSTRUN_ENABLE L OR
     (push_bit (MCTR_MBLEN_OFS L) (ucast len) AND MCTR_MBLEN_MASK L)"

definition send_msa :: "hdr \<Rightarrow> 8 word \<Rightarrow> 32 word" where
  "send_msa L slave = push_bit (MSA_SADDR_OFS L) (ucast slave) OR MSA_DIR_TRANSMIT L"

definition read_msa :: "hdr \<Rightarrow> 8 word \<Rightarrow> 32 word" where
  "read_msa L slave = push_bit (MSA_SADDR_OFS L) (ucast slave) OR MSA_DIR_RECEIVE L"

text \<open>
  The classification of the status flags, with \<^verbatim>\<open>ret_status\<close> still
  \<^verbatim>\<open>I2C_SUCCESS\<close>: MSR is read once for the arbitration flag and, when that is
  clear, once more for the error flag.
\<close>

definition check_status :: "hdr \<Rightarrow> hw \<Rightarrow> trace \<Rightarrow> 32 word \<times> trace" where
  "check_status L h tr =
     (if h tr MSR AND MSR_ARBLST_MASK L = MSR_ARBLST_SET L
      then (I2C_ERR_ARB_LOST, tr @ [Rd MSR (h tr MSR)])
      else if h (tr @ [Rd MSR (h tr MSR)]) MSR AND MSR_ERR_MASK L = MSR_ERR_SET L
      then (I2C_ERR_NACK,
            tr @ [Rd MSR (h tr MSR), Rd MSR (h (tr @ [Rd MSR (h tr MSR)]) MSR)])
      else (I2C_SUCCESS,
            tr @ [Rd MSR (h tr MSR), Rd MSR (h (tr @ [Rd MSR (h tr MSR)]) MSR)]))"

subsection \<open>I2C_mstr_send_internal\<close>

text \<open>The idle wait at the start of both engines, entered for \<^verbatim>\<open>I2C_NORMAL\<close> only.\<close>

definition idle_wait :: "hdr \<Rightarrow> hw \<Rightarrow> i2c_burst_type_t \<Rightarrow> trace \<Rightarrow> bool \<times> trace" where
  "idle_wait L h i2c_type tr =
     (if i2c_type = I2C_NORMAL
      then poll_timeout h (MSR_IDLE_MASK L) (MSR_IDLE_CLEARED L) I2C_TIMEOUT_COUNT tr
      else (False, tr))"

text \<open>
  The block of the send engine that runs while \<^verbatim>\<open>ret_status\<close> is
  \<^verbatim>\<open>I2C_SUCCESS\<close> after the fill: address, control word, the completion wait
  with its own countdown, the status flags.
\<close>

definition send_burst :: "hdr \<Rightarrow> hw \<Rightarrow> 8 word \<Rightarrow> 8 word \<Rightarrow> i2c_burst_type_t \<Rightarrow> trace \<Rightarrow> 32 word \<times> trace" where
  "send_burst L h slave len i2c_type tr =
     (case poll_timeout h (MSR_BUSY_MASK L) (MSR_BUSY_SET L) I2C_TIMEOUT_COUNT
             (tr @ [Wr MSA (send_msa L slave), Wr MCTR (send_mctr L len i2c_type)]) of
        (True, tr') \<Rightarrow> (I2C_ERR_TIMEOUT, tr')
      | (False, tr') \<Rightarrow> check_status L h tr')"

definition I2C_mstr_send_internal ::
  "hdr \<Rightarrow> hw \<Rightarrow> 8 word \<Rightarrow> (nat \<Rightarrow> 8 word) \<Rightarrow> 8 word \<Rightarrow> i2c_burst_type_t \<Rightarrow> trace \<Rightarrow> (32 word \<times> trace) option"
where
  "I2C_mstr_send_internal L h slave data len i2c_type tr =
     (case idle_wait L h i2c_type tr of
        (True, tr0) \<Rightarrow> Some (I2C_ERR_TIMEOUT, tr0)
      | (False, tr0) \<Rightarrow>
          (case spin h MFIFOSR
                  (\<lambda>v. v AND MFIFOSR_TXFIFOCNT_MASK L \<noteq> MFIFOSR_TXFIFOCNT_MAXIMUM L)
                  (set_bits h MFIFOCTL (MFIFOCTL_TXFLUSH_FLUSH L) tr0) of
             None \<Rightarrow> None
           | Some tr1 \<Rightarrow>
               (case I2C_fill_tx_fifo L h data (ucast len)
                       (clear_bits h MFIFOCTL (MFIFOCTL_TXFLUSH_MASK L) tr1) of
                  None \<Rightarrow> None
                | Some (filled, tr2) \<Rightarrow>
                    (let ret_status = (if filled = 0 then I2C_FIFO_LOAD_ERROR else I2C_SUCCESS)
                     in if ret_status = I2C_SUCCESS
                        then Some (send_burst L h slave len i2c_type tr2)
                        else Some (ret_status, tr2)))))"

subsection \<open>I2C_mstr_read_internal\<close>

text \<open>
  \<^verbatim>\<open>for (uint8_t idx = 0; idx < length; idx++) { buffer[idx] = (uint8_t)(MRXDATA & VALUE_MASK); usec_delay(30); }\<close>
\<close>

function drain_loop ::
  "hdr \<Rightarrow> hw \<Rightarrow> 8 word \<Rightarrow> 8 word \<Rightarrow> (nat \<Rightarrow> 8 word) \<Rightarrow> trace \<Rightarrow> (nat \<Rightarrow> 8 word) \<times> trace"
where
  "drain_loop L h len idx buffer tr =
     (if idx < len then
        drain_loop L h len (idx + 1)
          (buffer (unat idx := ucast (h tr MRXDATA AND MRXDATA_VALUE_MASK L)))
          (tr @ [Rd MRXDATA (h tr MRXDATA), Delay 30])
      else (buffer, tr))"
  by pat_completeness auto
termination
proof (relation "measure (\<lambda>(L, h, len, idx, buffer, tr). unat len - unat idx)")
  show "wf (measure (\<lambda>(L, h, len, idx, buffer, tr). unat len - unat idx))"
    by simp
next
  fix L :: hdr and h :: hw and len idx :: "8 word" and buffer :: "nat \<Rightarrow> 8 word" and tr :: trace
  assume below: "idx < len"
  then have "unat idx < unat len"
    by (simp add: word_less_nat_alt)
  moreover have "unat len < 256"
    using unsigned_less [of len, where ?'a = nat] by simp
  ultimately have "unat (idx + 1) = unat idx + 1"
    by (simp add: unat_word_ariths)
  with \<open>unat idx < unat len\<close>
  show "((L, h, len, idx + 1,
          buffer (unat idx := ucast (h tr MRXDATA AND MRXDATA_VALUE_MASK L)),
          tr @ [Rd MRXDATA (h tr MRXDATA), Delay 30]),
         (L, h, len, idx, buffer, tr))
        \<in> measure (\<lambda>(L, h, len, idx, buffer, tr). unat len - unat idx)"
    by simp
qed

declare drain_loop.simps [simp del]

text \<open>
  The occupancy of the receive queue,
  \<^verbatim>\<open>(MFIFOSR & I2C_MFIFOSR_RXFIFOCNT_MASK) >> I2C_MFIFOSR_RXFIFOCNT_OFS\<close>.
\<close>

definition rx_count :: "hdr \<Rightarrow> 32 word \<Rightarrow> 32 word" where
  "rx_count L v = drop_bit (MFIFOSR_RXFIFOCNT_OFS L) (v AND MFIFOSR_RXFIFOCNT_MASK L)"

definition I2C_mstr_read_internal ::
  "hdr \<Rightarrow> hw \<Rightarrow> 8 word \<Rightarrow> (nat \<Rightarrow> 8 word) \<Rightarrow> 8 word \<Rightarrow> i2c_burst_type_t \<Rightarrow> trace \<Rightarrow>
   (32 word \<times> (nat \<Rightarrow> 8 word) \<times> trace) option"
where
  "I2C_mstr_read_internal L h slave buffer len i2c_type tr =
     (case idle_wait L h i2c_type tr of
        (True, tr0) \<Rightarrow> Some (I2C_ERR_TIMEOUT, buffer, tr0)
      | (False, tr0) \<Rightarrow>
          (case spin h MFIFOSR
                  (\<lambda>v. v AND MFIFOSR_RXFIFOCNT_MASK L \<noteq> MFIFOSR_RXFIFOCNT_MINIMUM L)
                  (set_bits h MFIFOCTL (MFIFOCTL_RXFLUSH_FLUSH L) tr0) of
             None \<Rightarrow> None
           | Some tr1 \<Rightarrow>
               (case spin h MSR (\<lambda>v. v AND MSR_BUSY_MASK L = MSR_BUSY_SET L)
                       (clear_bits h MFIFOCTL (MFIFOCTL_RXFLUSH_MASK L) tr1
                        @ [Wr MSA (read_msa L slave), Wr MCTR (read_mctr L len i2c_type)]) of
                  None \<Rightarrow> None
                | Some tr2 \<Rightarrow>
                    (case check_status L h tr2 of
                       (ret_status, tr3) \<Rightarrow>
                         (case spin h MFIFOSR (\<lambda>v. rx_count L v < ucast len) tr3 of
                            None \<Rightarrow> None
                          | Some tr4 \<Rightarrow>
                              if ret_status = I2C_SUCCESS
                              then (case drain_loop L h len 0 buffer tr4 of
                                      (buffer', tr5) \<Rightarrow> Some (ret_status, buffer', tr5))
                              else Some (ret_status, buffer, tr4))))))"

subsection \<open>The public functions\<close>

text \<open>
  \<^verbatim>\<open>I2C_mstr_send1\<close> passes the address of its byte parameter: the byte
  is \<^verbatim>\<open>data[0]\<close> of the buffer the engine sees.
\<close>

definition I2C_mstr_send1 :: "hdr \<Rightarrow> hw \<Rightarrow> 8 word \<Rightarrow> 8 word \<Rightarrow> trace \<Rightarrow> (32 word \<times> trace) option" where
  "I2C_mstr_send1 L h slave data tr = I2C_mstr_send_internal L h slave (\<lambda>k. data) 1 I2C_NORMAL tr"

definition I2C_mstr_send ::
  "hdr \<Rightarrow> hw \<Rightarrow> 8 word \<Rightarrow> (nat \<Rightarrow> 8 word) \<Rightarrow> 8 word \<Rightarrow> trace \<Rightarrow> (32 word \<times> trace) option" where
  "I2C_mstr_send L h slave data len tr = I2C_mstr_send_internal L h slave data len I2C_NORMAL tr"

definition I2C_mstr_send_start ::
  "hdr \<Rightarrow> hw \<Rightarrow> 8 word \<Rightarrow> (nat \<Rightarrow> 8 word) \<Rightarrow> 8 word \<Rightarrow> trace \<Rightarrow> (32 word \<times> trace) option" where
  "I2C_mstr_send_start L h slave data len tr = I2C_mstr_send_internal L h slave data len I2C_START tr"

definition I2C_mstr_send_continue ::
  "hdr \<Rightarrow> hw \<Rightarrow> 8 word \<Rightarrow> (nat \<Rightarrow> 8 word) \<Rightarrow> 8 word \<Rightarrow> trace \<Rightarrow> (32 word \<times> trace) option" where
  "I2C_mstr_send_continue L h slave data len tr =
     I2C_mstr_send_internal L h slave data len I2C_CONTINUE tr"

definition I2C_mstr_send_end ::
  "hdr \<Rightarrow> hw \<Rightarrow> 8 word \<Rightarrow> (nat \<Rightarrow> 8 word) \<Rightarrow> 8 word \<Rightarrow> trace \<Rightarrow> (32 word \<times> trace) option" where
  "I2C_mstr_send_end L h slave data len tr = I2C_mstr_send_internal L h slave data len I2C_END tr"

definition I2C_mstr_read1 ::
  "hdr \<Rightarrow> hw \<Rightarrow> 8 word \<Rightarrow> (nat \<Rightarrow> 8 word) \<Rightarrow> trace \<Rightarrow> (32 word \<times> (nat \<Rightarrow> 8 word) \<times> trace) option" where
  "I2C_mstr_read1 L h slave buffer tr = I2C_mstr_read_internal L h slave buffer 1 I2C_NORMAL tr"

definition I2C_mstr_read ::
  "hdr \<Rightarrow> hw \<Rightarrow> 8 word \<Rightarrow> (nat \<Rightarrow> 8 word) \<Rightarrow> 8 word \<Rightarrow> trace \<Rightarrow>
   (32 word \<times> (nat \<Rightarrow> 8 word) \<times> trace) option" where
  "I2C_mstr_read L h slave buffer len tr = I2C_mstr_read_internal L h slave buffer len I2C_NORMAL tr"

definition I2C_mstr_read_start ::
  "hdr \<Rightarrow> hw \<Rightarrow> 8 word \<Rightarrow> (nat \<Rightarrow> 8 word) \<Rightarrow> 8 word \<Rightarrow> trace \<Rightarrow>
   (32 word \<times> (nat \<Rightarrow> 8 word) \<times> trace) option" where
  "I2C_mstr_read_start L h slave buffer len tr =
     I2C_mstr_read_internal L h slave buffer len I2C_START tr"

definition I2C_mstr_read_continue ::
  "hdr \<Rightarrow> hw \<Rightarrow> 8 word \<Rightarrow> (nat \<Rightarrow> 8 word) \<Rightarrow> 8 word \<Rightarrow> trace \<Rightarrow>
   (32 word \<times> (nat \<Rightarrow> 8 word) \<times> trace) option" where
  "I2C_mstr_read_continue L h slave buffer len tr =
     I2C_mstr_read_internal L h slave buffer len I2C_CONTINUE tr"

definition I2C_mstr_read_end ::
  "hdr \<Rightarrow> hw \<Rightarrow> 8 word \<Rightarrow> (nat \<Rightarrow> 8 word) \<Rightarrow> 8 word \<Rightarrow> trace \<Rightarrow>
   (32 word \<times> (nat \<Rightarrow> 8 word) \<times> trace) option" where
  "I2C_mstr_read_end L h slave buffer len tr =
     I2C_mstr_read_internal L h slave buffer len I2C_END tr"

subsection \<open>Reading traces\<close>

text \<open>The writes and the reads of a trace, in order.\<close>

fun writes :: "trace \<Rightarrow> (reg \<times> 32 word) list" where
  "writes [] = []"
| "writes (Wr r v # es) = (r, v) # writes es"
| "writes (Rd r v # es) = writes es"
| "writes (Delay d # es) = writes es"

fun reads :: "trace \<Rightarrow> (reg \<times> 32 word) list" where
  "reads [] = []"
| "reads (Rd r v # es) = (r, v) # reads es"
| "reads (Wr r v # es) = reads es"
| "reads (Delay d # es) = reads es"

text \<open>The writes that program a burst: the slave address and the control word.\<close>

fun is_bus_reg :: "reg \<times> 32 word \<Rightarrow> bool" where
  "is_bus_reg (r, v) = (r = MSA \<or> r = MCTR)"

definition bus_writes :: "trace \<Rightarrow> (reg \<times> 32 word) list" where
  "bus_writes tr = filter is_bus_reg (writes tr)"

text \<open>
  The events of a countdown loop that saw the values \<open>vs\<close>: one read of MSR for each
  value, a delay of 10 microseconds between two reads.
\<close>

fun poll_events :: "32 word list \<Rightarrow> trace" where
  "poll_events [] = []"
| "poll_events [v] = [Rd MSR v]"
| "poll_events (v # w # vs) = Rd MSR v # Delay 10 # poll_events (w # vs)"

text \<open>The events of a drain that read the values \<open>ws\<close>: each read followed by its delay.\<close>

fun drain_events :: "32 word list \<Rightarrow> trace" where
  "drain_events [] = []"
| "drain_events (w # ws) = Rd MRXDATA w # Delay 30 # drain_events ws"

subsection \<open>A transmit queue of eight entries\<close>

text \<open>
  The bytes written to MTXDATA since the queue was last flushed (a write to MFIFOCTL with
  the flush bit set).
\<close>

fun tx_step :: "hdr \<Rightarrow> nat \<Rightarrow> event \<Rightarrow> nat" where
  "tx_step L n (Wr r v) =
     (if r = MTXDATA then Suc n
      else if r = MFIFOCTL \<and> v AND MFIFOCTL_TXFLUSH_FLUSH L \<noteq> 0 then 0
      else n)"
| "tx_step L n (Rd r v) = n"
| "tx_step L n (Delay d) = n"

definition tx_pending :: "hdr \<Rightarrow> trace \<Rightarrow> nat" where
  "tx_pending L tr = foldl (tx_step L) 0 tr"

text \<open>
  Hardware whose transmit queue holds eight bytes and is not drained while it is loaded:
  the free-space field of MFIFOSR reads as its maximum when nothing is pending, and as
  zero exactly when eight or more bytes are.
\<close>

definition tx_queue8 :: "hdr \<Rightarrow> hw \<Rightarrow> bool" where
  "tx_queue8 L h \<longleftrightarrow>
     (\<forall>tr. (tx_pending L tr = 0 \<longrightarrow>
             h tr MFIFOSR AND MFIFOSR_TXFIFOCNT_MASK L = MFIFOSR_TXFIFOCNT_MAXIMUM L) \<and>
           ((h tr MFIFOSR AND MFIFOSR_TXFIFOCNT_MASK L = 0) = (8 \<le> tx_pending L tr)))"

subsection \<open>A receive queue of eight entries\<close>

text \<open>The burst length field of a control word.\<close>

definition mblen :: "hdr \<Rightarrow> 32 word \<Rightarrow> 32 word" where
  "mblen L w = drop_bit (MCTR_MBLEN_OFS L) (w AND MCTR_MBLEN_MASK L)"

text \<open>
  The bytes in the receive queue when every burst delivers its length in bytes at once: a
  write to MFIFOCTL with the receive flush bit empties the queue, a write to MCTR adds the
  burst length, a read of MRXDATA takes one byte.
\<close>

fun rx_level_step :: "hdr \<Rightarrow> nat \<Rightarrow> event \<Rightarrow> nat" where
  "rx_level_step L n (Wr r v) =
     (if r = MFIFOCTL \<and> v AND MFIFOCTL_RXFLUSH_FLUSH L \<noteq> 0 then 0
      else if r = MCTR then n + unat (mblen L v)
      else n)"
| "rx_level_step L n (Rd r v) = (if r = MRXDATA then n - 1 else n)"
| "rx_level_step L n (Delay d) = n"

definition rx_level :: "hdr \<Rightarrow> trace \<Rightarrow> nat" where
  "rx_level L tr = foldl (rx_level_step L) 0 tr"

text \<open>
  Hardware whose receive queue holds eight bytes and is filled at once by each burst: the
  occupancy field of MFIFOSR reads as its minimum when the queue is empty, and the
  occupancy count is the number of bytes in the queue, eight at most.
\<close>

definition rx_queue8 :: "hdr \<Rightarrow> hw \<Rightarrow> bool" where
  "rx_queue8 L h \<longleftrightarrow>
     (\<forall>tr. (rx_level L tr = 0 \<longrightarrow>
             h tr MFIFOSR AND MFIFOSR_RXFIFOCNT_MASK L = MFIFOSR_RXFIFOCNT_MINIMUM L) \<and>
           rx_count L (h tr MFIFOSR) = of_nat (min 8 (rx_level L tr)))"

subsection \<open>A simulated controller\<close>

text \<open>
  A test double with the field layout of \<open>mspm0_hdr\<close>: MSR always reads \<open>status\<close>;
  the transmit queue has eight entries; every burst puts its length in bytes into the
  receive queue, a flush of the receive queue empties it, and the k-th read of MRXDATA
  returns \<open>rx k\<close>.
\<close>

fun rx_step :: "nat \<Rightarrow> event \<Rightarrow> nat" where
  "rx_step n (Wr r v) =
     (if r = MFIFOCTL \<and> v AND 0x8000 \<noteq> 0 then 0
      else if r = MCTR then n + unat (drop_bit 16 (v AND 0x0FFF0000))
      else n)"
| "rx_step n (Rd r v) = (if r = MRXDATA then n - 1 else n)"
| "rx_step n (Delay d) = n"

definition rx_avail :: "trace \<Rightarrow> nat" where
  "rx_avail tr = foldl rx_step 0 tr"

fun is_rx_read :: "reg \<times> 32 word \<Rightarrow> bool" where
  "is_rx_read (r, v) = (r = MRXDATA)"

definition rx_taken :: "trace \<Rightarrow> nat" where
  "rx_taken tr = length (filter is_rx_read (reads tr))"

definition sim_hw :: "32 word \<Rightarrow> (nat \<Rightarrow> 8 word) \<Rightarrow> hw" where
  "sim_hw status rx tr r =
     (case r of
        MSR \<Rightarrow> status
      | MFIFOSR \<Rightarrow> push_bit 8 (of_nat (8 - tx_pending mspm0_hdr tr)) OR of_nat (min 8 (rx_avail tr))
      | MRXDATA \<Rightarrow> ucast (rx (rx_taken tr))
      | MFIFOCTL \<Rightarrow> 0 | MTXDATA \<Rightarrow> 0 | MSA \<Rightarrow> 0 | MCTR \<Rightarrow> 0)"


text \<open>The bytes 0, 1, 2, ... as a buffer.\<close>

definition ramp :: "nat \<Rightarrow> 8 word" where
  "ramp k = of_nat k"

text \<open>The loops without a countdown run as their recursion equations say.\<close>

declare spin.simps [code] fill_loop.simps [code]

section \<open>Properties\<close>

subsection \<open>Traces and words\<close>

lemmas ret_codes =
  I2C_SUCCESS_def I2C_ERR_ARB_LOST_def I2C_ERR_NACK_def I2C_FIFO_LOAD_ERROR_def
  I2C_ERR_TIMEOUT_def

lemma unat_len_bound: "unat (len :: 8 word) \<le> 255"
  using unsigned_less [of len, where ?'a = nat] by simp

lemma unat_ucast_len: "unat (ucast (len :: 8 word) :: 16 word) = unat len"
proof -
  have "unat len < 2 ^ 16"
    using unat_len_bound [of len] by simp
  then show ?thesis
    by (simp add: unsigned_ucast_eq take_bit_nat_eq_self)
qed

lemma writes_append [simp]: "writes (xs @ ys) = writes xs @ writes ys"
  by (induction xs rule: writes.induct) simp_all

lemma reads_append [simp]: "reads (xs @ ys) = reads xs @ reads ys"
  by (induction xs rule: reads.induct) simp_all

lemma poll_events_Cons: "vs \<noteq> [] \<Longrightarrow> poll_events (v # vs) = Rd MSR v # Delay 10 # poll_events vs"
  by (cases vs) simp_all

lemma writes_poll_events [simp]: "writes (poll_events vs) = []"
  by (induction vs rule: poll_events.induct) simp_all

lemma reads_poll_events [simp]: "reads (poll_events vs) = map (Pair MSR) vs"
  by (induction vs rule: poll_events.induct) simp_all

lemma writes_drain_events [simp]: "writes (drain_events ws) = []"
  by (induction ws) simp_all

lemma writes_map_Rd [simp]: "writes (map (Rd r) vs) = []"
  by (induction vs) simp_all

lemma reads_map_Rd [simp]: "reads (map (Rd r) vs) = map (Pair r) vs"
  by (induction vs) simp_all

subsection \<open>The loops\<close>

lemma Suc_unat_pred: "(x :: 32 word) \<noteq> 0 \<Longrightarrow> Suc (unat (x - 1)) = unat x"
  by (simp add: unat_minus_one unat_gt_0)

lemma poll_timeout_shape:
  "poll_timeout h msk pat t tr = (b, tr') \<Longrightarrow>
   \<exists>vs. tr' = tr @ poll_events vs \<and> vs \<noteq> [] \<and> hd vs = h tr MSR \<and>
        (\<forall>v\<in>set (butlast vs). v AND msk = pat) \<and>
        (if b then last vs AND msk = pat \<and> length vs = Suc (unat (t - 1))
         else last vs AND msk \<noteq> pat)"
proof (induction h msk pat t tr rule: poll_timeout.induct)
  case (1 h msk pat timeout tr)
  show ?case
  proof (cases "h tr MSR AND msk = pat")
    case False
    with "1.prems" have "b = False" "tr' = tr @ [Rd MSR (h tr MSR)]"
      by (simp_all add: poll_timeout.simps [of h msk pat timeout tr])
    with False show ?thesis
      by (intro exI [of _ "[h tr MSR]"]) simp
  next
    case True
    show ?thesis
    proof (cases "timeout - 1 = 0")
      case zero: True
      with True "1.prems" have "b = True" "tr' = tr @ [Rd MSR (h tr MSR)]"
        by (simp_all add: poll_timeout.simps [of h msk pat timeout tr])
      with True zero show ?thesis
        by (intro exI [of _ "[h tr MSR]"]) simp
    next
      case more: False
      with True "1.prems"
      have "poll_timeout h msk pat (timeout - 1) (tr @ [Rd MSR (h tr MSR), Delay 10]) = (b, tr')"
        by (simp add: poll_timeout.simps [of h msk pat timeout tr])
      from "1.IH" [OF True more this] obtain vs
        where vs: "tr' = (tr @ [Rd MSR (h tr MSR), Delay 10]) @ poll_events vs" "vs \<noteq> []"
          "\<forall>v\<in>set (butlast vs). v AND msk = pat"
          "if b then last vs AND msk = pat \<and> length vs = Suc (unat (timeout - 1 - 1))
           else last vs AND msk \<noteq> pat"
        by blast
      from Suc_unat_pred [OF more]
      have len: "Suc (Suc (unat (timeout - 1 - 1))) = Suc (unat (timeout - 1))"
        by simp
      from vs True len show ?thesis
        by (intro exI [of _ "h tr MSR # vs"])
           (auto simp: poll_events_Cons split: if_splits)
    qed
  qed
qed

lemma poll_timeout_stuck:
  "(\<And>t. h t MSR AND msk = pat) \<Longrightarrow> fst (poll_timeout h msk pat t tr)"
proof (induction h msk pat t tr rule: poll_timeout.induct)
  case (1 h msk pat timeout tr)
  then show ?case
    by (simp add: poll_timeout.simps [of h msk pat timeout tr])
qed

lemma poll_timeout_pass:
  "h tr MSR AND msk \<noteq> pat \<Longrightarrow> poll_timeout h msk pat t tr = (False, tr @ [Rd MSR (h tr MSR)])"
  by (simp add: poll_timeout.simps [of h msk pat t tr])

lemma timeout_count: "Suc (unat (I2C_TIMEOUT_COUNT - 1)) = 200000"
  by (simp add: I2C_TIMEOUT_COUNT_def)

lemma spin_Some:
  assumes "spin h r stay tr = Some tr'"
  shows "\<exists>vs. tr' = tr @ map (Rd r) vs @ [Rd r (h (tr @ map (Rd r) vs) r)] \<and>
              (\<forall>u\<in>set vs. stay u) \<and> \<not> stay (h (tr @ map (Rd r) vs) r)"
proof (rule spin.raw_induct
    [where P = "\<lambda>h r stay tr tr'. \<exists>vs. tr' = tr @ map (Rd r) vs @ [Rd r (h (tr @ map (Rd r) vs) r)] \<and>
              (\<forall>u\<in>set vs. stay u) \<and> \<not> stay (h (tr @ map (Rd r) vs) r)", OF _ assms])
  fix spin :: "hw \<Rightarrow> reg \<Rightarrow> (32 word \<Rightarrow> bool) \<Rightarrow> trace \<Rightarrow> trace option"
    and h r stay tr tr'
  assume IH: "\<And>h r stay tr y. spin h r stay tr = Some y \<Longrightarrow>
      \<exists>vs. y = tr @ map (Rd r) vs @ [Rd r (h (tr @ map (Rd r) vs) r)] \<and>
              (\<forall>u\<in>set vs. stay u) \<and> \<not> stay (h (tr @ map (Rd r) vs) r)"
    and step: "(if stay (h tr r) then spin h r stay (tr @ [Rd r (h tr r)])
                else Some (tr @ [Rd r (h tr r)])) = Some tr'"
  show "\<exists>vs. tr' = tr @ map (Rd r) vs @ [Rd r (h (tr @ map (Rd r) vs) r)] \<and>
              (\<forall>u\<in>set vs. stay u) \<and> \<not> stay (h (tr @ map (Rd r) vs) r)"
  proof (cases "stay (h tr r)")
    case True
    with step have "spin h r stay (tr @ [Rd r (h tr r)]) = Some tr'"
      by simp
    from IH [OF this] obtain vs
      where "tr' = (tr @ [Rd r (h tr r)]) @ map (Rd r) vs @ [Rd r (h ((tr @ [Rd r (h tr r)]) @ map (Rd r) vs) r)]"
        and "\<forall>u\<in>set vs. stay u" and "\<not> stay (h ((tr @ [Rd r (h tr r)]) @ map (Rd r) vs) r)"
      by blast
    with True show ?thesis
      by (intro exI [of _ "h tr r # vs"]) simp
  next
    case False
    with step show ?thesis
      by (intro exI [of _ "[]"]) auto
  qed
qed

lemma spin_None:
  assumes "\<And>t. stay (h t r)"
  shows "spin h r stay tr = None"
proof (cases "spin h r stay tr")
  case (Some tr')
  from spin_Some [OF this] assms show ?thesis by blast
qed simp

lemma spin_stop: "\<not> stay (h tr r) \<Longrightarrow> spin h r stay tr = Some (tr @ [Rd r (h tr r)])"
  by (subst spin.simps) simp

lemma spin_go: "stay (h tr r) \<Longrightarrow> spin h r stay tr = spin h r stay (tr @ [Rd r (h tr r)])"
  by (subst spin.simps) simp


lemma fill_loop_go:
  "unat i < unat count \<Longrightarrow>
   fill_loop L h buffer count i ret tr =
   fill_loop L h buffer count (i + 1)
     (if h tr MFIFOSR AND MFIFOSR_TXFIFOCNT_MASK L = 0 then 0 else ret)
     (tr @ [Rd MFIFOSR (h tr MFIFOSR), Wr MTXDATA (ucast (buffer (unat i)))])"
  by (subst fill_loop.simps) simp

lemma fill_loop_stop:
  "\<not> unat i < unat count \<Longrightarrow> fill_loop L h buffer count i ret tr = Some (ret, tr)"
  by (subst fill_loop.simps) simp

lemma fill_loop_total:
  assumes "unat count \<le> 255" and "unat i \<le> unat count"
  shows "\<exists>ev. fill_loop L h buffer count i ret tr =
               Some (if \<exists>v. (MFIFOSR, v) \<in> set (reads ev) \<and> v AND MFIFOSR_TXFIFOCNT_MASK L = 0
                     then 0 else ret, tr @ ev) \<and>
              writes ev = map (\<lambda>k. (MTXDATA, ucast (buffer k))) [unat i..<unat count] \<and>
              length (reads ev) = unat count - unat i \<and>
              fst ` set (reads ev) \<subseteq> {MFIFOSR} \<and>
              (ev \<noteq> [] \<longrightarrow> (\<exists>b. last ev = Wr MTXDATA b))"
  using assms
proof (induction "unat count - unat i" arbitrary: i ret tr)
  case 0
  then have "\<not> unat i < unat count" by simp
  from fill_loop_stop [OF this] 0 show ?case
    by (intro exI [of _ "[]"]) simp
next
  case (Suc n)
  then have lt: "unat i < unat count" by simp
  with Suc.prems have next_i: "unat (i + 1) = Suc (unat i)"
    by (simp add: unat_word_ariths)
  let ?ret = "if h tr MFIFOSR AND MFIFOSR_TXFIFOCNT_MASK L = 0 then 0 else ret"
  let ?tr = "tr @ [Rd MFIFOSR (h tr MFIFOSR), Wr MTXDATA (ucast (buffer (unat i)))]"
  from Suc.hyps(2) next_i lt have "n = unat count - unat (i + 1)" "unat (i + 1) \<le> unat count"
    by simp_all
  from Suc.hyps(1) [OF this(1) Suc.prems(1) this(2), of ?ret ?tr] obtain ev
    where ev: "fill_loop L h buffer count (i + 1) ?ret ?tr =
               Some (if \<exists>v. (MFIFOSR, v) \<in> set (reads ev) \<and> v AND MFIFOSR_TXFIFOCNT_MASK L = 0
                     then 0 else ?ret, ?tr @ ev)"
      "writes ev = map (\<lambda>k. (MTXDATA, ucast (buffer k))) [unat (i + 1)..<unat count]"
      "length (reads ev) = unat count - unat (i + 1)"
      "fst ` set (reads ev) \<subseteq> {MFIFOSR}"
      "ev \<noteq> [] \<longrightarrow> (\<exists>b. last ev = Wr MTXDATA b)"
    by blast
  let ?ev = "[Rd MFIFOSR (h tr MFIFOSR), Wr MTXDATA (ucast (buffer (unat i)))] @ ev"
  have "fill_loop L h buffer count i ret tr =
        Some (if \<exists>v. (MFIFOSR, v) \<in> set (reads ?ev) \<and> v AND MFIFOSR_TXFIFOCNT_MASK L = 0
              then 0 else ret, tr @ ?ev)"
    using ev(1) by (subst fill_loop_go [OF lt]) auto
  moreover have "writes ?ev = map (\<lambda>k. (MTXDATA, ucast (buffer k))) [unat i..<unat count]"
    using ev(2) lt next_i by (simp add: upt_conv_Cons)
  moreover have "length (reads ?ev) = unat count - unat i"
    using ev(3) lt next_i by simp
  moreover have "fst ` set (reads ?ev) \<subseteq> {MFIFOSR}"
    using ev(4) by simp
  moreover have "\<exists>b. last ?ev = Wr MTXDATA b"
    using ev(5) by (cases "ev = []") simp_all
  ultimately show ?case
    by (intro exI [of _ ?ev]) simp
qed

subsection \<open>The status flags, the drain and the idle wait\<close>

lemma check_status_shape:
  "\<exists>vs. snd (check_status L h tr) = tr @ map (Rd MSR) vs \<and> vs \<noteq> [] \<and> hd vs = h tr MSR"
proof (cases "h tr MSR AND MSR_ARBLST_MASK L = MSR_ARBLST_SET L")
  case True
  then show ?thesis
    by (intro exI [of _ "[h tr MSR]"]) (simp add: check_status_def)
next
  case False
  then show ?thesis
    by (intro exI [of _ "[h tr MSR, h (tr @ [Rd MSR (h tr MSR)]) MSR]"])
       (simp add: check_status_def)
qed

lemma check_status_codes:
  "fst (check_status L h tr) \<in> {I2C_SUCCESS, I2C_ERR_ARB_LOST, I2C_ERR_NACK}"
  by (simp add: check_status_def)


lemma drain_loop_shape:
  "idx \<le> len \<Longrightarrow>
   \<exists>ws. snd (drain_loop L h len idx buffer tr) = tr @ drain_events ws \<and>
        length ws = unat len - unat idx"
proof (induction L h len idx buffer tr rule: drain_loop.induct)
  case (1 L h len idx buffer tr)
  show ?case
  proof (cases "idx < len")
    case False
    with "1.prems" have "idx = len" by simp
    then show ?thesis
      by (intro exI [of _ "[]"]) (simp add: drain_loop.simps [of L h len len])
  next
    case True
    then have "unat idx < unat len"
      by (simp add: word_less_nat_alt)
    moreover have "unat len < 256"
      using unsigned_less [of len, where ?'a = nat] by simp
    ultimately have next_idx: "unat (idx + 1) = Suc (unat idx)"
      by (simp add: unat_word_ariths)
    with \<open>unat idx < unat len\<close> have "idx + 1 \<le> len"
      by (simp add: word_le_nat_alt)
    from "1.IH" [OF True this] obtain ws
      where ws: "snd (drain_loop L h len (idx + 1)
                   (buffer (unat idx := ucast (h tr MRXDATA AND MRXDATA_VALUE_MASK L)))
                   (tr @ [Rd MRXDATA (h tr MRXDATA), Delay 30])) =
                 (tr @ [Rd MRXDATA (h tr MRXDATA), Delay 30]) @ drain_events ws"
        "length ws = unat len - unat (idx + 1)"
      by blast
    with True next_idx \<open>unat idx < unat len\<close> show ?thesis
      by (intro exI [of _ "h tr MRXDATA # ws"])
         (simp add: drain_loop.simps [of L h len idx buffer tr])
  qed
qed

lemma bus_writes_append [simp]: "bus_writes (xs @ ys) = bus_writes xs @ bus_writes ys"
  by (simp add: bus_writes_def)

lemma bus_writes_none: "fst ` set (writes ev) \<subseteq> {MFIFOCTL, MTXDATA} \<Longrightarrow> bus_writes ev = []"
  by (auto simp: bus_writes_def filter_empty_conv)

lemma bus_writes_reads [simp]:
  "bus_writes (poll_events vs) = []" "bus_writes (map (Rd r) vs) = []"
  "bus_writes (drain_events ws) = []"
  by (simp_all add: bus_writes_def)

lemma idle_wait_shape:
  assumes "idle_wait L h ty tr = (b, tr0)"
  shows "(ty \<noteq> I2C_NORMAL \<and> \<not> b \<and> tr0 = tr) \<or>
         (ty = I2C_NORMAL \<and>
          (\<exists>vs. tr0 = tr @ poll_events vs \<and> vs \<noteq> [] \<and> hd vs = h tr MSR \<and>
                (b \<longrightarrow> length vs = 200000 \<and>
                       (\<forall>v\<in>set vs. v AND MSR_IDLE_MASK L = MSR_IDLE_CLEARED L))))"
proof (cases "ty = I2C_NORMAL")
  case False
  with assms show ?thesis by (simp add: idle_wait_def)
next
  case True
  with assms
  have "poll_timeout h (MSR_IDLE_MASK L) (MSR_IDLE_CLEARED L) I2C_TIMEOUT_COUNT tr = (b, tr0)"
    by (simp add: idle_wait_def)
  from poll_timeout_shape [OF this] obtain vs
    where vs: "tr0 = tr @ poll_events vs" "vs \<noteq> []" "hd vs = h tr MSR"
      "\<forall>v\<in>set (butlast vs). v AND MSR_IDLE_MASK L = MSR_IDLE_CLEARED L"
      "if b then last vs AND MSR_IDLE_MASK L = MSR_IDLE_CLEARED L \<and>
                 length vs = Suc (unat (I2C_TIMEOUT_COUNT - 1))
       else last vs AND MSR_IDLE_MASK L \<noteq> MSR_IDLE_CLEARED L"
    by blast
  have "\<forall>v\<in>set vs. v AND MSR_IDLE_MASK L = MSR_IDLE_CLEARED L" if b
  proof
    fix v assume "v \<in> set vs"
    with vs(2) have "v \<in> set (butlast vs) \<or> v = last vs"
      by (metis append_butlast_last_id in_set_conv_decomp_last rotate1.simps(2) set_ConsD set_rotate1)
    with vs(4,5) that show "v AND MSR_IDLE_MASK L = MSR_IDLE_CLEARED L"
      by auto
  qed
  with vs True show ?thesis
    by (auto simp: timeout_count)
qed

subsection \<open>The shape of a send call\<close>

lemma send_unfold:
  assumes "I2C_mstr_send_internal L h slave data len ty tr = Some (r, tr')"
  obtains
    (idle) "idle_wait L h ty tr = (True, tr')" "r = I2C_ERR_TIMEOUT"
  | (fifo) tr0 tr1 where "idle_wait L h ty tr = (False, tr0)"
      "spin h MFIFOSR (\<lambda>v. v AND MFIFOSR_TXFIFOCNT_MASK L \<noteq> MFIFOSR_TXFIFOCNT_MAXIMUM L)
         (set_bits h MFIFOCTL (MFIFOCTL_TXFLUSH_FLUSH L) tr0) = Some tr1"
      "I2C_fill_tx_fifo L h data (ucast len) (clear_bits h MFIFOCTL (MFIFOCTL_TXFLUSH_MASK L) tr1)
         = Some (0, tr')"
      "r = I2C_FIFO_LOAD_ERROR"
  | (burst) tr0 tr1 filled tr2 where "idle_wait L h ty tr = (False, tr0)"
      "spin h MFIFOSR (\<lambda>v. v AND MFIFOSR_TXFIFOCNT_MASK L \<noteq> MFIFOSR_TXFIFOCNT_MAXIMUM L)
         (set_bits h MFIFOCTL (MFIFOCTL_TXFLUSH_FLUSH L) tr0) = Some tr1"
      "I2C_fill_tx_fifo L h data (ucast len) (clear_bits h MFIFOCTL (MFIFOCTL_TXFLUSH_MASK L) tr1)
         = Some (filled, tr2)"
      "filled \<noteq> 0" "send_burst L h slave len ty tr2 = (r, tr')"
  using assms unfolding I2C_mstr_send_internal_def
  by (auto simp: ret_codes Let_def split: prod.splits bool.splits option.splits if_splits)

text \<open>The events of a send call up to the end of the fill.\<close>

lemma send_load_shape:
  assumes "idle_wait L h ty tr = (False, tr0)"
    and "spin h MFIFOSR stay (set_bits h MFIFOCTL bits tr0) = Some tr1"
    and "I2C_fill_tx_fifo L h data (ucast (len :: 8 word)) (clear_bits h MFIFOCTL bits' tr1)
           = Some (filled, tr2)"
  shows "\<exists>pre. tr2 = tr @ pre \<and> pre \<noteq> [] \<and>
           hd pre = (if ty = I2C_NORMAL then Rd MSR (h tr MSR) else Rd MFIFOCTL (h tr MFIFOCTL)) \<and>
           bus_writes pre = [] \<and>
           map snd (filter (\<lambda>(r, v). r = MTXDATA) (writes pre)) =
             map (\<lambda>k. ucast (data k)) [0..<unat len] \<and>
           (filled = 0 \<longrightarrow>
              (\<exists>b. last pre = Wr MTXDATA b) \<and>
              (\<exists>v. (MFIFOSR, v) \<in> set (reads pre) \<and> v AND MFIFOSR_TXFIFOCNT_MASK L = 0))"
proof -
  from idle_wait_shape [OF assms(1)] obtain idle_ev
    where idle: "tr0 = tr @ idle_ev" "writes idle_ev = []"
      "if ty = I2C_NORMAL then idle_ev \<noteq> [] \<and> hd idle_ev = Rd MSR (h tr MSR) else idle_ev = []"
    apply (elim disjE conjE exE)
    subgoal by (rule that [of "[]"]) simp_all
    subgoal for vs by (rule that [of "poll_events vs"]) (cases vs rule: poll_events.cases; simp)+
    done
  from spin_Some [OF assms(2)] obtain us
    where tr1: "tr1 = set_bits h MFIFOCTL bits tr0 @ map (Rd MFIFOSR) us @
                  [Rd MFIFOSR (h (set_bits h MFIFOCTL bits tr0 @ map (Rd MFIFOSR) us) MFIFOSR)]"
    by blast
  have cnt: "unat (ucast len :: 16 word) \<le> 255" "unat (ucast len :: 16 word) = unat len"
    using unat_len_bound [of len] by (simp_all add: unat_ucast_len)
  from fill_loop_total [of "ucast len" 0 L h data 1 "clear_bits h MFIFOCTL bits' tr1"] cnt assms(3)
  obtain ev where ev: "tr2 = clear_bits h MFIFOCTL bits' tr1 @ ev"
      "filled = (if \<exists>v. (MFIFOSR, v) \<in> set (reads ev) \<and> v AND MFIFOSR_TXFIFOCNT_MASK L = 0
                 then 0 else 1)"
      "writes ev = map (\<lambda>k. (MTXDATA, ucast (data k))) [0..<unat len]"
      "ev \<noteq> [] \<longrightarrow> (\<exists>b. last ev = Wr MTXDATA b)"
    by (auto simp: I2C_fill_tx_fifo_def)
  from ev(2) have full: "filled = 0 \<Longrightarrow>
      \<exists>v. (MFIFOSR, v) \<in> set (reads ev) \<and> v AND MFIFOSR_TXFIFOCNT_MASK L = 0"
    by (auto split: if_splits)
  then have nonempty: "filled = 0 \<Longrightarrow> ev \<noteq> []"
    by auto
  let ?pre = "idle_ev @ [Rd MFIFOCTL (h tr0 MFIFOCTL), Wr MFIFOCTL (h tr0 MFIFOCTL OR bits)] @
              map (Rd MFIFOSR) us @
              [Rd MFIFOSR (h (set_bits h MFIFOCTL bits tr0 @ map (Rd MFIFOSR) us) MFIFOSR)] @
              [Rd MFIFOCTL (h tr1 MFIFOCTL), Wr MFIFOCTL (h tr1 MFIFOCTL AND NOT bits')] @ ev"
  have "tr2 = tr @ ?pre"
    using idle(1) tr1 ev(1) by (simp add: set_bits_def clear_bits_def)
  moreover have "hd ?pre = (if ty = I2C_NORMAL then Rd MSR (h tr MSR) else Rd MFIFOCTL (h tr MFIFOCTL))"
    using idle by (auto split: if_splits)
  moreover have "bus_writes ?pre = []"
    using idle(2) ev(3) by (intro bus_writes_none) auto
  moreover have "map snd (filter (\<lambda>(r, v). r = MTXDATA) (writes ?pre)) =
             map (\<lambda>k. ucast (data k)) [0..<unat len]"
    using idle(2) ev(3) by (simp add: filter_map comp_def)
  moreover have "filled = 0 \<longrightarrow> (\<exists>b. last ?pre = Wr MTXDATA b)"
    using ev(4) nonempty by auto
  moreover have "filled = 0 \<longrightarrow>
      (\<exists>v. (MFIFOSR, v) \<in> set (reads ?pre) \<and> v AND MFIFOSR_TXFIFOCNT_MASK L = 0)"
    using full by auto
  ultimately show ?thesis
    by (intro exI [of _ ?pre]) simp
qed

lemma poll_timeout_timed_out:
  assumes "poll_timeout h msk pat I2C_TIMEOUT_COUNT tr = (True, tr')"
  shows "\<exists>vs. tr' = tr @ poll_events vs \<and> length vs = 200000 \<and> hd vs = h tr MSR \<and>
              (\<forall>v\<in>set vs. v AND msk = pat)"
proof -
  from poll_timeout_shape [OF assms] obtain vs
    where vs: "tr' = tr @ poll_events vs" "vs \<noteq> []" "hd vs = h tr MSR"
      "\<forall>v\<in>set (butlast vs). v AND msk = pat" "last vs AND msk = pat"
      "length vs = Suc (unat (I2C_TIMEOUT_COUNT - 1))"
    by auto
  from vs(2) have "set vs = insert (last vs) (set (butlast vs))"
    by (metis append_butlast_last_id list.simps(15) rotate1.simps(2) set_rotate1)
  with vs(4,5) have "\<forall>v\<in>set vs. v AND msk = pat"
    by simp
  with vs(1,3,6) show ?thesis
    by (intro exI [of _ vs]) (simp add: timeout_count)
qed

lemma poll_timeout_passed:
  assumes "poll_timeout h msk pat t tr = (False, tr')"
  shows "\<exists>vs. tr' = tr @ poll_events vs \<and> vs \<noteq> [] \<and> hd vs = h tr MSR \<and>
              last vs AND msk \<noteq> pat \<and> last vs = h (butlast tr') MSR"
  using assms
proof (induction h msk pat t tr rule: poll_timeout.induct)
  case (1 h msk pat timeout tr)
  show ?case
  proof (cases "h tr MSR AND msk = pat")
    case False
    with "1.prems" have "tr' = tr @ [Rd MSR (h tr MSR)]"
      by (simp add: poll_timeout.simps [of h msk pat timeout tr])
    with False show ?thesis
      by (intro exI [of _ "[h tr MSR]"]) simp
  next
    case True
    with "1.prems" have more: "timeout - 1 \<noteq> 0"
      and "poll_timeout h msk pat (timeout - 1) (tr @ [Rd MSR (h tr MSR), Delay 10]) = (False, tr')"
      by (auto simp: poll_timeout.simps [of h msk pat timeout tr] split: if_splits)
    from "1.IH" [OF True more this(2)] obtain vs
      where "tr' = (tr @ [Rd MSR (h tr MSR), Delay 10]) @ poll_events vs" "vs \<noteq> []"
        "last vs AND msk \<noteq> pat" "last vs = h (butlast tr') MSR"
      by blast
    then show ?thesis
      by (intro exI [of _ "h tr MSR # vs"]) (simp add: poll_events_Cons)
  qed
qed

lemma send_burst_shape:
  assumes "send_burst L h slave len ty tr2 = (r, tr')"
  shows "\<exists>vs post. tr' = tr2 @ [Wr MSA (send_msa L slave), Wr MCTR (send_mctr L len ty)] @
                         poll_events vs @ map (Rd MSR) post \<and>
           (if r = I2C_ERR_TIMEOUT
            then post = [] \<and> length vs = 200000 \<and>
                 (\<forall>v\<in>set vs. v AND MSR_BUSY_MASK L = MSR_BUSY_SET L)
            else post \<noteq> [] \<and> vs \<noteq> [] \<and> last vs AND MSR_BUSY_MASK L \<noteq> MSR_BUSY_SET L \<and>
                 check_status L h
                   (tr2 @ [Wr MSA (send_msa L slave), Wr MCTR (send_mctr L len ty)] @ poll_events vs)
                 = (r, tr'))"
proof -
  let ?tr = "tr2 @ [Wr MSA (send_msa L slave), Wr MCTR (send_mctr L len ty)]"
  obtain b tr3
    where poll: "poll_timeout h (MSR_BUSY_MASK L) (MSR_BUSY_SET L) I2C_TIMEOUT_COUNT ?tr = (b, tr3)"
    by (cases "poll_timeout h (MSR_BUSY_MASK L) (MSR_BUSY_SET L) I2C_TIMEOUT_COUNT ?tr")
  show ?thesis
  proof (cases b)
    case True
    with poll assms have r: "r = I2C_ERR_TIMEOUT" "tr' = tr3"
      by (simp_all add: send_burst_def)
    from poll True have "poll_timeout h (MSR_BUSY_MASK L) (MSR_BUSY_SET L) I2C_TIMEOUT_COUNT ?tr = (True, tr3)"
      by simp
    from poll_timeout_timed_out [OF this] obtain vs
      where "tr3 = ?tr @ poll_events vs" "length vs = 200000"
        "\<forall>v\<in>set vs. v AND MSR_BUSY_MASK L = MSR_BUSY_SET L"
      by blast
    with r show ?thesis
      by (intro exI [of _ vs] exI [of _ "[]"]) simp
  next
    case False
    with poll assms have st: "check_status L h tr3 = (r, tr')"
      by (simp add: send_burst_def)
    from check_status_codes [of L h tr3] st have "r \<noteq> I2C_ERR_TIMEOUT"
      by (auto simp: ret_codes)
    moreover from poll False have "poll_timeout h (MSR_BUSY_MASK L) (MSR_BUSY_SET L) I2C_TIMEOUT_COUNT ?tr = (False, tr3)"
      by simp
    from poll_timeout_passed [OF this] obtain vs
      where vs: "tr3 = ?tr @ poll_events vs" "vs \<noteq> []"
        "last vs AND MSR_BUSY_MASK L \<noteq> MSR_BUSY_SET L"
      by blast
    moreover from check_status_shape [of L h tr3] st obtain post
      where "tr' = tr3 @ map (Rd MSR) post" "post \<noteq> []"
      by auto
    ultimately show ?thesis
      using st by (intro exI [of _ vs] exI [of _ post]) simp
  qed
qed

subsection \<open>The shape of a receive call\<close>

lemma read_unfold:
  assumes "I2C_mstr_read_internal L h slave buffer len ty tr = Some (r, buffer', tr')"
  obtains
    (idle) "idle_wait L h ty tr = (True, tr')" "r = I2C_ERR_TIMEOUT" "buffer' = buffer"
  | (burst) tr0 tr1 tr2 tr3 tr4 where "idle_wait L h ty tr = (False, tr0)"
      "spin h MFIFOSR (\<lambda>v. v AND MFIFOSR_RXFIFOCNT_MASK L \<noteq> MFIFOSR_RXFIFOCNT_MINIMUM L)
         (set_bits h MFIFOCTL (MFIFOCTL_RXFLUSH_FLUSH L) tr0) = Some tr1"
      "spin h MSR (\<lambda>v. v AND MSR_BUSY_MASK L = MSR_BUSY_SET L)
         (clear_bits h MFIFOCTL (MFIFOCTL_RXFLUSH_MASK L) tr1
          @ [Wr MSA (read_msa L slave), Wr MCTR (read_mctr L len ty)]) = Some tr2"
      "check_status L h tr2 = (r, tr3)"
      "spin h MFIFOSR (\<lambda>v. rx_count L v < ucast len) tr3 = Some tr4"
      "if r = I2C_SUCCESS then drain_loop L h len 0 buffer tr4 = (buffer', tr')
       else buffer' = buffer \<and> tr' = tr4"
  using assms unfolding I2C_mstr_read_internal_def
  by (auto split: prod.splits bool.splits option.splits if_splits)

lemma read_burst_shape:
  assumes "idle_wait L h ty tr = (False, tr0)"
    and "spin h MFIFOSR stay (set_bits h MFIFOCTL bits tr0) = Some tr1"
    and "spin h MSR (\<lambda>v. v AND MSR_BUSY_MASK L = MSR_BUSY_SET L)
           (clear_bits h MFIFOCTL bits' tr1 @ [Wr MSA a, Wr MCTR w]) = Some tr2"
    and "check_status L h tr2 = (r, tr3)"
    and "spin h MFIFOSR (\<lambda>v. rx_count L v < ucast len) tr3 = Some tr4"
  shows "\<exists>pre ss cs c. tr4 = tr @ pre @ [Wr MSA a, Wr MCTR w] @ map (Rd MSR) ss @
                           map (Rd MFIFOSR) cs @ [Rd MFIFOSR c] \<and>
           pre \<noteq> [] \<and>
           hd pre = (if ty = I2C_NORMAL then Rd MSR (h tr MSR) else Rd MFIFOCTL (h tr MFIFOCTL)) \<and>
           fst ` set (writes pre) \<subseteq> {MFIFOCTL} \<and>
           fst ` set (reads pre) \<subseteq> {MSR, MFIFOCTL, MFIFOSR} \<and>
           ss \<noteq> [] \<and> (\<forall>u\<in>set cs. rx_count L u < ucast len) \<and> \<not> rx_count L c < ucast len"
proof -
  from idle_wait_shape [OF assms(1)] obtain idle_ev
    where idle: "tr0 = tr @ idle_ev" "writes idle_ev = []" "fst ` set (reads idle_ev) \<subseteq> {MSR}"
      "if ty = I2C_NORMAL then idle_ev \<noteq> [] \<and> hd idle_ev = Rd MSR (h tr MSR) else idle_ev = []"
    apply (elim disjE conjE exE)
    subgoal by (rule that [of "[]"]) simp_all
    subgoal for vs
      by (rule that [of "poll_events vs"]) (cases vs rule: poll_events.cases; auto)+
    done
  from spin_Some [OF assms(2)] obtain us u
    where tr1: "tr1 = set_bits h MFIFOCTL bits tr0 @ map (Rd MFIFOSR) us @ [Rd MFIFOSR u]"
    by blast
  from spin_Some [OF assms(3)] obtain bs b
    where tr2: "tr2 = (clear_bits h MFIFOCTL bits' tr1 @ [Wr MSA a, Wr MCTR w]) @
                      map (Rd MSR) bs @ [Rd MSR b]"
    by blast
  from check_status_shape [of L h tr2] assms(4) obtain st
    where tr3: "tr3 = tr2 @ map (Rd MSR) st"
    by auto
  from spin_Some [OF assms(5)] obtain cs c
    where tr4: "tr4 = tr3 @ map (Rd MFIFOSR) cs @ [Rd MFIFOSR c]"
      and cs: "\<forall>u\<in>set cs. rx_count L u < ucast len" "\<not> rx_count L c < ucast len"
    by blast
  let ?pre = "idle_ev @ [Rd MFIFOCTL (h tr0 MFIFOCTL), Wr MFIFOCTL (h tr0 MFIFOCTL OR bits)] @
              map (Rd MFIFOSR) us @ [Rd MFIFOSR u] @
              [Rd MFIFOCTL (h tr1 MFIFOCTL), Wr MFIFOCTL (h tr1 MFIFOCTL AND NOT bits')]"
  let ?ss = "bs @ [b] @ st"
  have "tr4 = tr @ ?pre @ [Wr MSA a, Wr MCTR w] @ map (Rd MSR) ?ss @
                map (Rd MFIFOSR) cs @ [Rd MFIFOSR c]"
    using idle(1) tr1 tr2 tr3 tr4 by (simp add: set_bits_def clear_bits_def)
  moreover have "hd ?pre = (if ty = I2C_NORMAL then Rd MSR (h tr MSR) else Rd MFIFOCTL (h tr MFIFOCTL))"
    using idle by (auto split: if_splits)
  moreover have "fst ` set (writes ?pre) \<subseteq> {MFIFOCTL}"
    using idle(2) by simp
  moreover have "fst ` set (reads ?pre) \<subseteq> {MSR, MFIFOCTL, MFIFOSR}"
    using idle(3) by auto
  ultimately show ?thesis
    using cs by (intro exI [of _ ?pre] exI [of _ ?ss] exI [of _ cs] exI [of _ c]) simp
qed

subsection \<open>The control word\<close>

lemma start_in_mode: "i2c_transaction_mode L ty AND MCTR_START_ENABLE L = MCTR_START_ENABLE L"
  by (cases ty) (auto simp: bit_eq_iff bit_and_iff bit_or_iff)

lemma stop_in_mode:
  "ty = I2C_NORMAL \<or> ty = I2C_END \<Longrightarrow>
   i2c_transaction_mode L ty AND MCTR_STOP_ENABLE L = MCTR_STOP_ENABLE L"
  by (auto simp: bit_eq_iff bit_and_iff bit_or_iff)

lemma part_set:
  fixes a m b c s :: "32 word"
  assumes "m AND s = s"
  shows "(a OR m OR b OR c) AND s = s"
  using assms by (auto simp: bit_eq_iff bit_and_iff bit_or_iff)

lemma send_mctr_writes:
  assumes "I2C_mstr_send_internal L h slave data len ty tr = Some (r, tr')"
  shows "\<exists>ev. tr' = tr @ ev \<and> bus_writes ev \<in> {[], [(MSA, send_msa L slave), (MCTR, send_mctr L len ty)]}"
  using assms
proof (cases rule: send_unfold)
  case idle
  from idle_wait_shape [OF idle(1)] show ?thesis
    by auto
next
  case (fifo tr0 tr1)
  from send_load_shape [OF fifo(1-3)] show ?thesis
    by auto
next
  case (burst tr0 tr1 filled tr2)
  from send_load_shape [OF burst(1-3)] obtain pre
    where pre: "tr2 = tr @ pre" "bus_writes pre = []" by blast
  from send_burst_shape [OF burst(5)] obtain vs post
    where "tr' = tr2 @ [Wr MSA (send_msa L slave), Wr MCTR (send_mctr L len ty)] @
                         poll_events vs @ map (Rd MSR) post"
    by blast
  with pre show ?thesis
    by (intro exI [of _ "pre @ [Wr MSA (send_msa L slave), Wr MCTR (send_mctr L len ty)] @
                         poll_events vs @ map (Rd MSR) post"])
       (simp add: bus_writes_def)
qed


lemma bus_writes_Nil [simp]: "bus_writes [] = []"
  by (simp add: bus_writes_def)

lemma read_mctr_writes:
  assumes "I2C_mstr_read_internal L h slave buffer len ty tr = Some (r, buffer', tr')"
  shows "\<exists>ev. tr' = tr @ ev \<and>
              bus_writes ev \<in> {[], [(MSA, read_msa L slave), (MCTR, read_mctr L len ty)]}"
  using assms
proof (cases rule: read_unfold)
  case idle
  from idle_wait_shape [OF idle(1)] show ?thesis
    by auto
next
  case (burst tr0 tr1 tr2 tr3 tr4)
  from read_burst_shape [OF burst(1-5)] obtain pre ss cs c
    where tr4: "tr4 = tr @ pre @ [Wr MSA (read_msa L slave), Wr MCTR (read_mctr L len ty)] @
                     map (Rd MSR) ss @ map (Rd MFIFOSR) cs @ [Rd MFIFOSR c]"
      and pre: "fst ` set (writes pre) \<subseteq> {MFIFOCTL}"
    by (elim exE conjE) (rule that; assumption)
  from pre have none: "bus_writes pre = []"
    by (intro bus_writes_none) auto
  obtain post where post: "tr' = tr4 @ post" "bus_writes post = []"
  proof (cases "r = I2C_SUCCESS")
    case True
    with burst(6) have drained: "snd (drain_loop L h len 0 buffer tr4) = tr'" by simp
    have "0 \<le> len" by simp
    from drain_loop_shape [OF this, of L h buffer tr4] obtain ws
      where "snd (drain_loop L h len 0 buffer tr4) = tr4 @ drain_events ws"
      by blast
    with drained have "tr' = tr4 @ drain_events ws" by simp
    then show ?thesis by (intro that [of "drain_events ws"]) simp_all
  next
    case False
    with burst(6) show ?thesis by (intro that [of "[]"]) simp_all
  qed
  with tr4 none show ?thesis
    by (intro exI [of _ "pre @ [Wr MSA (read_msa L slave), Wr MCTR (read_mctr L len ty)] @
                     map (Rd MSR) ss @ map (Rd MFIFOSR) cs @ [Rd MFIFOSR c] @ post"])
       (simp add: bus_writes_def)
qed

lemma stop_bit_clear:
  fixes ad ae st br k c s :: "32 word"
  assumes "s \<noteq> 0" and "s AND (ad OR ae OR st OR br OR k) = 0"
  shows "(ad OR st OR br OR (c AND k)) AND s \<noteq> s" and "(ae OR st OR br OR (c AND k)) AND s \<noteq> s"
proof -
  from assms(1) obtain n where n: "bit s n"
    by (auto simp: bit_eq_iff)
  from assms(2) have "\<not> bit (s AND (ad OR ae OR st OR br OR k)) n"
    by simp
  with n have none: "\<not> bit ad n" "\<not> bit ae n" "\<not> bit st n" "\<not> bit br n" "\<not> bit k n"
    by (simp_all add: bit_and_iff bit_or_iff)
  show "(ad OR st OR br OR (c AND k)) AND s \<noteq> s"
  proof
    assume "(ad OR st OR br OR (c AND k)) AND s = s"
    with n have "bit ((ad OR st OR br OR (c AND k)) AND s) n" by simp
    with none show False by (simp add: bit_and_iff bit_or_iff)
  qed
  show "(ae OR st OR br OR (c AND k)) AND s \<noteq> s"
  proof
    assume "(ae OR st OR br OR (c AND k)) AND s = s"
    with n have "bit ((ae OR st OR br OR (c AND k)) AND s) n" by simp
    with none show False by (simp add: bit_and_iff bit_or_iff)
  qed
qed


subsection \<open>Running the engines on the simulated controller\<close>

lemmas sim_defs = sim_hw_def tx_pending_def rx_avail_def rx_taken_def mspm0_hdr_def
  set_bits_def clear_bits_def

lemmas run_simps = I2C_mstr_send_internal_def I2C_mstr_read_internal_def idle_wait_def
  poll_timeout_pass sim_defs spin_stop spin_go
  I2C_fill_tx_fifo_def fill_loop_go fill_loop_stop send_burst_def check_status_def
  send_msa_def send_mctr_def read_msa_def read_mctr_def ramp_def ret_codes
  rx_count_def drain_loop.simps push_bit_eq_mult

subsection \<open>The first event of a call\<close>

lemma idle_wait_never_idle:
  assumes "\<And>t. h t MSR AND MSR_IDLE_MASK L = MSR_IDLE_CLEARED L"
  shows "\<exists>vs. idle_wait L h I2C_NORMAL tr = (True, tr @ poll_events vs) \<and> length vs = 200000 \<and>
              (\<forall>v\<in>set vs. v AND MSR_IDLE_MASK L = MSR_IDLE_CLEARED L)"
proof -
  obtain tr0 where "idle_wait L h I2C_NORMAL tr = (True, tr0)"
    using poll_timeout_stuck [of h "MSR_IDLE_MASK L" "MSR_IDLE_CLEARED L" I2C_TIMEOUT_COUNT tr] assms
    by (cases "idle_wait L h I2C_NORMAL tr") (simp add: idle_wait_def)
  moreover from idle_wait_shape [OF this] obtain vs
    where "tr0 = tr @ poll_events vs" "length vs = 200000"
      "\<forall>v\<in>set vs. v AND MSR_IDLE_MASK L = MSR_IDLE_CLEARED L"
    by auto
  ultimately show ?thesis
    by (intro exI [of _ vs]) simp
qed

lemma send_first_event:
  assumes "I2C_mstr_send_internal L h slave data len ty tr = Some (r, tr')"
  shows "\<exists>ev. tr' = tr @ ev \<and> ev \<noteq> [] \<and>
              hd ev = (if ty = I2C_NORMAL then Rd MSR (h tr MSR) else Rd MFIFOCTL (h tr MFIFOCTL))"
  using assms
proof (cases rule: send_unfold)
  case idle
  from idle_wait_shape [OF idle(1)] obtain vs
    where "ty = I2C_NORMAL" "tr' = tr @ poll_events vs" "vs \<noteq> []" "hd vs = h tr MSR"
    by auto
  then show ?thesis
    by (intro exI [of _ "poll_events vs"]) (cases vs rule: poll_events.cases; simp)
next
  case (fifo tr0 tr1)
  from send_load_shape [OF fifo(1-3)] show ?thesis
    by (elim exE conjE) (rule exI; intro conjI; assumption)
next
  case (burst tr0 tr1 filled tr2)
  from send_load_shape [OF burst(1-3)] obtain pre
    where pre: "tr2 = tr @ pre" "pre \<noteq> []"
      "hd pre = (if ty = I2C_NORMAL then Rd MSR (h tr MSR) else Rd MFIFOCTL (h tr MFIFOCTL))"
    by (elim exE conjE) (rule that; assumption)
  from send_burst_shape [OF burst(5)] obtain post where "tr' = tr2 @ post"
    by (elim exE conjE) (rule that; assumption)
  with pre show ?thesis
    by (intro exI [of _ "pre @ post"]) simp
qed

lemma read_tail:
  assumes "if r = I2C_SUCCESS then drain_loop L h len 0 buffer tr4 = (buffer', tr')
           else buffer' = buffer \<and> tr' = tr4"
  shows "\<exists>ws. tr' = tr4 @ drain_events ws \<and>
              (if r = I2C_SUCCESS then length ws = unat len else ws = [] \<and> buffer' = buffer)"
proof (cases "r = I2C_SUCCESS")
  case True
  with assms have drained: "snd (drain_loop L h len 0 buffer tr4) = tr'" by simp
  have "0 \<le> len" by simp
  from drain_loop_shape [OF this, of L h buffer tr4] obtain ws
    where "snd (drain_loop L h len 0 buffer tr4) = tr4 @ drain_events ws" "length ws = unat len - unat (0 :: 8 word)"
    by blast
  with drained True show ?thesis by (intro exI [of _ ws]) simp
next
  case False
  with assms show ?thesis by (intro exI [of _ "[]"]) simp
qed

lemma read_first_event:
  assumes "I2C_mstr_read_internal L h slave buffer len ty tr = Some (r, buffer', tr')"
  shows "\<exists>ev. tr' = tr @ ev \<and> ev \<noteq> [] \<and>
              hd ev = (if ty = I2C_NORMAL then Rd MSR (h tr MSR) else Rd MFIFOCTL (h tr MFIFOCTL))"
  using assms
proof (cases rule: read_unfold)
  case idle
  from idle_wait_shape [OF idle(1)] obtain vs
    where "ty = I2C_NORMAL" "tr' = tr @ poll_events vs" "vs \<noteq> []" "hd vs = h tr MSR"
    by auto
  then show ?thesis
    by (intro exI [of _ "poll_events vs"]) (cases vs rule: poll_events.cases; simp)
next
  case (burst tr0 tr1 tr2 tr3 tr4)
  from read_burst_shape [OF burst(1-5)] obtain pre rest
    where pre: "tr4 = tr @ pre @ rest" "pre \<noteq> []"
      "hd pre = (if ty = I2C_NORMAL then Rd MSR (h tr MSR) else Rd MFIFOCTL (h tr MFIFOCTL))"
    by (elim exE conjE) (rule that; assumption)
  from read_tail [OF burst(6)] obtain ws where "tr' = tr4 @ drain_events ws"
    by blast
  with pre show ?thesis
    by (intro exI [of _ "pre @ rest @ drain_events ws"]) simp
qed

subsection \<open>Where the engines time out\<close>

lemma send_burst_stuck:
  assumes "\<And>t. h t MSR AND MSR_BUSY_MASK L = MSR_BUSY_SET L"
  shows "fst (send_burst L h slave len ty tr) = I2C_ERR_TIMEOUT"
  using poll_timeout_stuck [of h "MSR_BUSY_MASK L" "MSR_BUSY_SET L" I2C_TIMEOUT_COUNT
      "tr @ [Wr MSA (send_msa L slave), Wr MCTR (send_mctr L len ty)]", OF assms]
  by (auto simp: send_burst_def split: prod.splits)

lemma check_status_not_timeout:
  "check_status L h tr = (r, tr') \<Longrightarrow> r \<noteq> I2C_ERR_TIMEOUT \<and> r \<noteq> I2C_FIFO_LOAD_ERROR"
  using check_status_codes [of L h tr] by (auto simp: ret_codes)

lemma send_timeout_cases:
  assumes "I2C_mstr_send_internal L h slave data len ty tr = Some (I2C_ERR_TIMEOUT, tr')"
  shows "(ty = I2C_NORMAL \<and>
          (\<exists>vs. tr' = tr @ poll_events vs \<and> length vs = 200000 \<and>
                (\<forall>v\<in>set vs. v AND MSR_IDLE_MASK L = MSR_IDLE_CLEARED L))) \<or>
         (\<exists>pre vs. tr' = tr @ pre @ [Wr MSA (send_msa L slave), Wr MCTR (send_mctr L len ty)] @
                         poll_events vs \<and>
                   length vs = 200000 \<and>
                   (\<forall>v\<in>set vs. v AND MSR_BUSY_MASK L = MSR_BUSY_SET L))"
  using assms
proof (cases rule: send_unfold)
  case idle
  from idle_wait_shape [OF idle(1)] show ?thesis
    by auto
next
  case (fifo tr0 tr1)
  then show ?thesis by (simp add: ret_codes)
next
  case (burst tr0 tr1 filled tr2)
  from send_load_shape [OF burst(1-3)] obtain pre where pre: "tr2 = tr @ pre"
    by (elim exE conjE) (rule that; assumption)
  from send_burst_shape [OF burst(5)] obtain vs
    where "tr' = tr2 @ [Wr MSA (send_msa L slave), Wr MCTR (send_mctr L len ty)] @
                 poll_events vs @ map (Rd MSR) []"
      "length vs = 200000" "\<forall>v\<in>set vs. v AND MSR_BUSY_MASK L = MSR_BUSY_SET L"
    by auto
  with pre show ?thesis
    by (intro disjI2 exI [of _ pre] exI [of _ vs]) simp
qed

lemma read_timeout_idle:
  assumes "I2C_mstr_read_internal L h slave buffer len ty tr = Some (I2C_ERR_TIMEOUT, buffer', tr')"
  shows "ty = I2C_NORMAL \<and> buffer' = buffer \<and>
         (\<exists>vs. tr' = tr @ poll_events vs \<and> length vs = 200000 \<and>
               (\<forall>v\<in>set vs. v AND MSR_IDLE_MASK L = MSR_IDLE_CLEARED L))"
  using assms
proof (cases rule: read_unfold)
  case idle
  from idle_wait_shape [OF idle(1)] idle(3) show ?thesis
    by auto
next
  case (burst tr0 tr1 tr2 tr3 tr4)
  from check_status_not_timeout [OF burst(4)] show ?thesis
    by simp
qed

lemma read_stuck_busy:
  assumes "\<And>t. h t MSR AND MSR_BUSY_MASK L = MSR_BUSY_SET L"
    and "I2C_mstr_read_internal L h slave buffer len ty tr = Some (r, buffer', tr')"
  shows "r = I2C_ERR_TIMEOUT"
  using assms(2)
proof (cases rule: read_unfold)
  case idle
  then show ?thesis by simp
next
  case (burst tr0 tr1 tr2 tr3 tr4)
  have "spin h MSR (\<lambda>v. v AND MSR_BUSY_MASK L = MSR_BUSY_SET L)
          (clear_bits h MFIFOCTL (MFIFOCTL_RXFLUSH_MASK L) tr1
           @ [Wr MSA (read_msa L slave), Wr MCTR (read_mctr L len ty)]) = None"
    by (rule spin_None) (rule assms(1))
  with burst(3) show ?thesis by simp
qed

subsection \<open>The result codes of the send engine\<close>

lemma send_burst_codes:
  "fst (send_burst L h slave len ty tr) \<in>
     {I2C_ERR_TIMEOUT, I2C_SUCCESS, I2C_ERR_ARB_LOST, I2C_ERR_NACK}"
proof (cases "poll_timeout h (MSR_BUSY_MASK L) (MSR_BUSY_SET L) I2C_TIMEOUT_COUNT
               (tr @ [Wr MSA (send_msa L slave), Wr MCTR (send_mctr L len ty)])")
  case (Pair b tr')
  with check_status_codes [of L h tr'] show ?thesis
    by (cases b) (auto simp: send_burst_def)
qed

lemma send_fifo_error_trace:
  assumes "I2C_mstr_send_internal L h slave data len ty tr = Some (I2C_FIFO_LOAD_ERROR, tr')"
  shows "\<exists>pre b. tr' = tr @ pre @ [Wr MTXDATA b] \<and> bus_writes pre = [] \<and>
           (\<exists>v. (MFIFOSR, v) \<in> set (reads pre) \<and> v AND MFIFOSR_TXFIFOCNT_MASK L = 0)"
  using assms
proof (cases rule: send_unfold)
  case idle
  then show ?thesis by (simp add: ret_codes)
next
  case (fifo tr0 tr1)
  from send_load_shape [OF fifo(1-3)] obtain pre b v
    where pre: "tr' = tr @ pre" "pre \<noteq> []" "bus_writes pre = []" "last pre = Wr MTXDATA b"
      "(MFIFOSR, v) \<in> set (reads pre)" "v AND MFIFOSR_TXFIFOCNT_MASK L = 0"
    by auto
  from pre(2,4) have split: "pre = butlast pre @ [Wr MTXDATA b]"
    by (metis append_butlast_last_id)
  with pre(3) have "bus_writes (butlast pre) = []"
    by (metis append_is_Nil_conv bus_writes_append)
  moreover from split pre(5) have "(MFIFOSR, v) \<in> set (reads (butlast pre))"
    by (metis Un_iff empty_iff empty_set reads.simps(1,3) reads_append set_append)
  ultimately show ?thesis
    using pre(1,6) split by (intro exI [of _ "butlast pre"] exI [of _ b]) auto
next
  case (burst tr0 tr1 filled tr2)
  from send_burst_codes [of L h slave len ty tr2] burst(5) show ?thesis
    by (auto simp: ret_codes)
qed

subsection \<open>The transmit queue of eight entries\<close>

lemma tx_pending_append: "tx_pending L (tr @ es) = foldl (tx_step L) (tx_pending L tr) es"
  by (simp add: tx_pending_def)

lemma tx_pending_flush:
  "MFIFOCTL_TXFLUSH_FLUSH L \<noteq> 0 \<Longrightarrow>
   tx_pending L (set_bits h MFIFOCTL (MFIFOCTL_TXFLUSH_FLUSH L) tr) = 0"
proof -
  have "(x OR b) AND b = b" for x b :: "32 word"
    by (auto simp: bit_eq_iff bit_and_iff bit_or_iff)
  then show "MFIFOCTL_TXFLUSH_FLUSH L \<noteq> 0 \<Longrightarrow> ?thesis"
    by (simp add: set_bits_def tx_pending_append)
qed

lemma tx_pending_clear:
  "tx_pending L tr = 0 \<Longrightarrow> tx_pending L (clear_bits h MFIFOCTL bits tr) = 0"
  by (simp add: clear_bits_def tx_pending_append)

lemma tx_pending_read: "tx_pending L (tr @ [Rd r v]) = tx_pending L tr"
  by (simp add: tx_pending_append)

lemma fill_loop_queue8:
  assumes "tx_queue8 L h" and "unat count \<le> 255" and "unat i \<le> unat count"
  shows "\<exists>tr'. fill_loop L h buffer count i ret tr =
               Some (if ret = 0 \<or> (unat i < unat count \<and> 8 + unat i < tx_pending L tr + unat count)
                     then 0 else ret, tr')"
  using assms(2,3)
proof (induction "unat count - unat i" arbitrary: i ret tr)
  case 0
  then have "\<not> unat i < unat count" by simp
  from fill_loop_stop [OF this] this show ?case
    by simp
next
  case (Suc n)
  then have lt: "unat i < unat count" by simp
  with Suc.prems have next_i: "unat (i + 1) = Suc (unat i)"
    by (simp add: unat_word_ariths)
  let ?full = "h tr MFIFOSR AND MFIFOSR_TXFIFOCNT_MASK L = 0"
  let ?ret = "if ?full then 0 else ret"
  let ?tr = "tr @ [Rd MFIFOSR (h tr MFIFOSR), Wr MTXDATA (ucast (buffer (unat i)))]"
  from assms(1) have full: "?full \<longleftrightarrow> 8 \<le> tx_pending L tr"
    by (simp add: tx_queue8_def)
  have pending: "tx_pending L ?tr = Suc (tx_pending L tr)"
    by (simp add: tx_pending_append)
  from Suc.hyps(2) next_i lt have "n = unat count - unat (i + 1)" "unat (i + 1) \<le> unat count"
    by simp_all
  from Suc.hyps(1) [OF this(1) Suc.prems(1) this(2), of ?ret ?tr] obtain tr'
    where "fill_loop L h buffer count (i + 1) ?ret ?tr =
             Some (if ?ret = 0 \<or> (unat (i + 1) < unat count \<and>
                                8 + unat (i + 1) < tx_pending L ?tr + unat count)
                   then 0 else ?ret, tr')"
    by blast
  moreover have "(?ret = 0 \<or> (unat (i + 1) < unat count \<and>
                                8 + unat (i + 1) < tx_pending L ?tr + unat count))
                 \<longleftrightarrow> (ret = 0 \<or> (unat i < unat count \<and> 8 + unat i < tx_pending L tr + unat count))"
    using full lt next_i pending by auto
  moreover have "(if ?ret = 0 \<or> (unat (i + 1) < unat count \<and>
                                8 + unat (i + 1) < tx_pending L ?tr + unat count)
                   then 0 else ?ret) =
                 (if ret = 0 \<or> (unat i < unat count \<and> 8 + unat i < tx_pending L tr + unat count)
                  then 0 else ret)"
    using calculation(2) by auto
  ultimately show ?case
    by (subst fill_loop_go [OF lt]) (intro exI [of _ tr'], simp)
qed

lemma send_on_queue8:
  fixes len :: "8 word"
  assumes "tx_queue8 L h" and "MFIFOCTL_TXFLUSH_FLUSH L \<noteq> 0"
    and "ty = I2C_NORMAL \<longrightarrow> h tr MSR AND MSR_IDLE_MASK L \<noteq> MSR_IDLE_CLEARED L"
  shows "\<exists>tr0 tr1 tr2.
           idle_wait L h ty tr = (False, tr0) \<and>
           spin h MFIFOSR (\<lambda>v. v AND MFIFOSR_TXFIFOCNT_MASK L \<noteq> MFIFOSR_TXFIFOCNT_MAXIMUM L)
             (set_bits h MFIFOCTL (MFIFOCTL_TXFLUSH_FLUSH L) tr0) = Some tr1 \<and>
           I2C_fill_tx_fifo L h data (ucast len) (clear_bits h MFIFOCTL (MFIFOCTL_TXFLUSH_MASK L) tr1)
             = Some (if 8 < unat len then 0 else 1, tr2)"
proof -
  obtain tr0 where idle: "idle_wait L h ty tr = (False, tr0)"
    using assms(3) by (cases "ty = I2C_NORMAL") (simp_all add: idle_wait_def poll_timeout_pass)
  let ?trA = "set_bits h MFIFOCTL (MFIFOCTL_TXFLUSH_FLUSH L) tr0"
  have emptyA: "tx_pending L ?trA = 0"
    by (rule tx_pending_flush [OF assms(2)])
  with assms(1) have "h ?trA MFIFOSR AND MFIFOSR_TXFIFOCNT_MASK L = MFIFOSR_TXFIFOCNT_MAXIMUM L"
    by (simp add: tx_queue8_def)
  then have flushed: "spin h MFIFOSR
      (\<lambda>v. v AND MFIFOSR_TXFIFOCNT_MASK L \<noteq> MFIFOSR_TXFIFOCNT_MAXIMUM L) ?trA
      = Some (?trA @ [Rd MFIFOSR (h ?trA MFIFOSR)])"
    by (simp add: spin_stop)
  let ?trC = "clear_bits h MFIFOCTL (MFIFOCTL_TXFLUSH_MASK L) (?trA @ [Rd MFIFOSR (h ?trA MFIFOSR)])"
  from emptyA have emptyC: "tx_pending L ?trC = 0"
    by (intro tx_pending_clear) (simp add: tx_pending_read)
  from fill_loop_queue8 [OF assms(1), of "ucast len" 0 data 1 ?trC] obtain tr2
    where "I2C_fill_tx_fifo L h data (ucast len) ?trC = Some (if 8 < unat len then 0 else 1, tr2)"
    using unat_len_bound [of len] emptyC
    by (auto simp: I2C_fill_tx_fifo_def unat_ucast_len)
  with idle flushed show ?thesis
    by blast
qed

lemma le8_cases: "(q :: nat) \<le> 8 \<Longrightarrow> q \<in> {0, 1, 2, 3, 4, 5, 6, 7, 8}"
  by auto

lemma tx_field_of_sim:
  assumes "q \<le> 8" and "m \<le> 8"
  shows "(push_bit 8 (of_nat q) OR of_nat m) AND (0xF00 :: 32 word) = push_bit 8 (of_nat q)"
proof -
  have low: "(of_nat m :: 32 word) AND 0xF00 = 0"
    using le8_cases [OF assms(2)] by auto
  have high: "push_bit 8 (of_nat q :: 32 word) AND 0xF00 = push_bit 8 (of_nat q)"
    using le8_cases [OF assms(1)] by (auto simp: push_bit_eq_mult)
  show ?thesis
    by (simp add: bit.conj_disj_distrib2 low high)
qed

lemma sim_hw_queue8: "tx_queue8 mspm0_hdr (sim_hw status rx)"
proof -
  have field: "sim_hw status rx tr MFIFOSR AND MFIFOSR_TXFIFOCNT_MASK mspm0_hdr
               = push_bit 8 (of_nat (8 - tx_pending mspm0_hdr tr))" for tr
    using tx_field_of_sim [of "8 - tx_pending mspm0_hdr tr" "min 8 (rx_avail tr)"]
    by (simp add: sim_hw_def) (simp add: mspm0_hdr_def)
  have zero: "(push_bit 8 (of_nat q :: 32 word) = 0) = (q = 0)" if "q \<le> 8" for q
    using le8_cases [OF that] by (auto simp: push_bit_eq_mult)
  show ?thesis
    unfolding tx_queue8_def field
    by (auto simp: zero) (simp add: mspm0_hdr_def push_bit_eq_mult)
qed

subsection \<open>The events of a receive call\<close>

lemma read_trace:
  assumes "I2C_mstr_read_internal L h slave buffer len ty tr = Some (r, buffer', tr')"
    and "r \<noteq> I2C_ERR_TIMEOUT"
  shows "\<exists>pre ss cs c ws.
           tr' = tr @ pre @ [Wr MSA (read_msa L slave), Wr MCTR (read_mctr L len ty)] @
                 map (Rd MSR) ss @ map (Rd MFIFOSR) cs @ [Rd MFIFOSR c] @ drain_events ws \<and>
           fst ` set (reads pre) \<subseteq> {MSR, MFIFOCTL, MFIFOSR} \<and> ss \<noteq> [] \<and>
           (\<forall>u\<in>set cs. rx_count L u < ucast len) \<and> \<not> rx_count L c < ucast len \<and>
           (if r = I2C_SUCCESS then length ws = unat len else ws = [] \<and> buffer' = buffer)"
  using assms(1)
proof (cases rule: read_unfold)
  case idle
  with assms(2) show ?thesis by simp
next
  case (burst tr0 tr1 tr2 tr3 tr4)
  from read_burst_shape [OF burst(1-5)] obtain pre ss cs c
    where shape: "tr4 = tr @ pre @ [Wr MSA (read_msa L slave), Wr MCTR (read_mctr L len ty)] @
                     map (Rd MSR) ss @ map (Rd MFIFOSR) cs @ [Rd MFIFOSR c]"
      "fst ` set (reads pre) \<subseteq> {MSR, MFIFOCTL, MFIFOSR}" "ss \<noteq> []"
      "\<forall>u\<in>set cs. rx_count L u < ucast len" "\<not> rx_count L c < ucast len"
    by (elim exE conjE) (rule that; assumption)
  from read_tail [OF burst(6)] obtain ws
    where "tr' = tr4 @ drain_events ws"
      "if r = I2C_SUCCESS then length ws = unat len else ws = [] \<and> buffer' = buffer"
    by blast
  with shape show ?thesis
    by (intro exI [of _ pre] exI [of _ ss] exI [of _ cs] exI [of _ c] exI [of _ ws]) simp
qed

lemma reads_drain_events [simp]: "reads (drain_events ws) = map (Pair MRXDATA) ws"
  by (induction ws) simp_all

lemma failed_read_untouched:
  assumes "I2C_mstr_read_internal L h slave buffer len ty tr = Some (r, buffer', tr')"
    and "r \<noteq> I2C_SUCCESS"
  shows "buffer' = buffer \<and> MRXDATA \<notin> fst ` set (reads (drop (length tr) tr'))"
proof (cases "r = I2C_ERR_TIMEOUT")
  case True
  with assms(1) read_timeout_idle [of L h slave buffer len ty tr buffer' tr'] show ?thesis
    by auto
next
  case False
  from read_trace [OF assms(1) False] assms(2) obtain pre ss cs c
    where "tr' = tr @ pre @ [Wr MSA (read_msa L slave), Wr MCTR (read_mctr L len ty)] @
                 map (Rd MSR) ss @ map (Rd MFIFOSR) cs @ [Rd MFIFOSR c] @ drain_events []"
      "fst ` set (reads pre) \<subseteq> {MSR, MFIFOCTL, MFIFOSR}" "buffer' = buffer"
    by auto
  then show ?thesis
    by auto
qed

lemma read_never_filled:
  assumes "\<And>t. rx_count L (h t MFIFOSR) < ucast len"
  shows "I2C_mstr_read_internal L h slave buffer len ty tr = Some (r, buffer', tr')
           \<Longrightarrow> r = I2C_ERR_TIMEOUT"
    and "(ty = I2C_NORMAL \<longrightarrow> h tr MSR AND MSR_IDLE_MASK L \<noteq> MSR_IDLE_CLEARED L)
           \<Longrightarrow> I2C_mstr_read_internal L h slave buffer len ty tr = None"
proof -
  have hang: "spin h MFIFOSR (\<lambda>v. rx_count L v < ucast len) t = None" for t
    by (rule spin_None) (rule assms)
  show timeout: "r = I2C_ERR_TIMEOUT"
    if "I2C_mstr_read_internal L h slave buffer len ty tr = Some (r, buffer', tr')"
    for r buffer' tr'
    using that
  proof (cases rule: read_unfold)
    case idle
    then show ?thesis by simp
  next
    case (burst tr0 tr1 tr2 tr3 tr4)
    with hang [of tr3] show ?thesis by simp
  qed
  show "I2C_mstr_read_internal L h slave buffer len ty tr = None"
    if idle_bus: "ty = I2C_NORMAL \<longrightarrow> h tr MSR AND MSR_IDLE_MASK L \<noteq> MSR_IDLE_CLEARED L"
  proof (cases "I2C_mstr_read_internal L h slave buffer len ty tr")
    case None
    then show ?thesis .
  next
    case (Some res)
    obtain r buffer' tr' where res: "res = (r, buffer', tr')"
      by (cases res)
    with Some have returned: "I2C_mstr_read_internal L h slave buffer len ty tr = Some (r, buffer', tr')"
      by simp
    from timeout [OF this] have "r = I2C_ERR_TIMEOUT" .
    with returned have "ty = I2C_NORMAL" and "\<exists>vs. tr' = tr @ poll_events vs \<and> length vs = 200000 \<and>
               (\<forall>v\<in>set vs. v AND MSR_IDLE_MASK L = MSR_IDLE_CLEARED L)"
      using read_timeout_idle [of L h slave buffer len ty tr buffer' tr'] by simp_all
    from returned show ?thesis
    proof (cases rule: read_unfold)
      case idle
      with idle_bus \<open>ty = I2C_NORMAL\<close> show ?thesis
        by (simp add: idle_wait_def poll_timeout_pass)
    next
      case (burst tr0 tr1 tr2 tr3 tr4)
      with hang [of tr3] show ?thesis by simp
    qed
  qed
qed

lemma rx_field_of_sim:
  assumes "q \<le> 8" and "m \<le> 8"
  shows "(push_bit 8 (of_nat q) OR of_nat m) AND (0x0F :: 32 word) = of_nat m"
proof -
  have low: "(of_nat m :: 32 word) AND 0x0F = of_nat m"
    using le8_cases [OF assms(2)] by auto
  have high: "push_bit 8 (of_nat q :: 32 word) AND 0x0F = 0"
    using le8_cases [OF assms(1)] by (auto simp: push_bit_eq_mult)
  show ?thesis
    by (simp add: bit.conj_disj_distrib2 low high)
qed

lemma sim_hw_rx_count: "rx_count mspm0_hdr (sim_hw status rx t MFIFOSR) = of_nat (min 8 (rx_avail t))"
  using rx_field_of_sim [of "8 - tx_pending mspm0_hdr t" "min 8 (rx_avail t)"]
  by (simp add: rx_count_def sim_hw_def) (simp add: mspm0_hdr_def)

lemma sim_hw_rx_below_nine: "rx_count mspm0_hdr (sim_hw status rx t MFIFOSR) < ucast (9 :: 8 word)"
  using le8_cases [of "min 8 (rx_avail t)"] by (auto simp: sim_hw_rx_count)

subsection \<open>The receive queue of eight entries\<close>

lemma rx_level_append: "rx_level L (tr @ es) = foldl (rx_level_step L) (rx_level L tr) es"
  by (simp add: rx_level_def)

lemma rx_level_reads: "rx_level L (tr @ map (Rd MSR) vs) = rx_level L tr"
  by (induction vs arbitrary: tr rule: rev_induct) (simp_all add: rx_level_append flip: append_assoc)

lemma rx_level_flush:
  "MFIFOCTL_RXFLUSH_FLUSH L \<noteq> 0 \<Longrightarrow>
   rx_level L (set_bits h MFIFOCTL (MFIFOCTL_RXFLUSH_FLUSH L) tr) = 0"
proof -
  have "(x OR b) AND b = b" for x b :: "32 word"
    by (auto simp: bit_eq_iff bit_and_iff bit_or_iff)
  then show "MFIFOCTL_RXFLUSH_FLUSH L \<noteq> 0 \<Longrightarrow> ?thesis"
    by (simp add: set_bits_def rx_level_append)
qed

lemma rx_level_clear:
  "rx_level L tr = 0 \<Longrightarrow> rx_level L (clear_bits h MFIFOCTL bits tr) = 0"
  by (simp add: clear_bits_def rx_level_append)

lemma unat_ucast_len32: "unat (ucast (len :: 8 word) :: 32 word) = unat len"
proof -
  have "unat len < 2 ^ 32"
    using unat_len_bound [of len] by simp
  then show ?thesis
    by (simp add: unsigned_ucast_eq take_bit_nat_eq_self)
qed

subsection \<open>Calls that return\<close>

text \<open>
  On a controller whose queues behave as queues of eight entries, the unbounded loops of
  the engines end: the flush waits and the fill, and for the receive engine the
  completion wait and the occupancy wait when the busy flag is clear once MCTR is written.
\<close>

lemma read_completes:
  fixes len :: "8 word"
  assumes queue: "rx_queue8 L h" and flush: "MFIFOCTL_RXFLUSH_FLUSH L \<noteq> 0"
    and idle: "ty = I2C_NORMAL \<longrightarrow> h tr MSR AND MSR_IDLE_MASK L \<noteq> MSR_IDLE_CLEARED L"
    and settled: "\<And>t. MCTR \<in> fst ` set (writes t) \<Longrightarrow> h t MSR AND MSR_BUSY_MASK L \<noteq> MSR_BUSY_SET L"
    and field: "mblen L (read_mctr L len ty) = ucast len" and fits: "unat len \<le> 8"
  shows "\<exists>pre b buffer' tr'.
           I2C_mstr_read_internal L h slave buffer len ty tr =
             Some (fst (check_status L h
                          (tr @ pre @ [Wr MSA (read_msa L slave), Wr MCTR (read_mctr L len ty),
                                       Rd MSR b])),
                   buffer', tr') \<and>
           bus_writes pre = []"
proof -
  obtain tr0 where tr0: "idle_wait L h ty tr = (False, tr0)"
    using idle by (cases "ty = I2C_NORMAL") (simp_all add: idle_wait_def poll_timeout_pass)
  from idle_wait_shape [OF tr0] obtain idle_ev where idle_ev: "tr0 = tr @ idle_ev" "bus_writes idle_ev = []"
    by auto
  let ?trA = "set_bits h MFIFOCTL (MFIFOCTL_RXFLUSH_FLUSH L) tr0"
  have emptyA: "rx_level L ?trA = 0"
    by (rule rx_level_flush [OF flush])
  with queue have "h ?trA MFIFOSR AND MFIFOSR_RXFIFOCNT_MASK L = MFIFOSR_RXFIFOCNT_MINIMUM L"
    by (simp add: rx_queue8_def)
  then have flushed: "spin h MFIFOSR
      (\<lambda>v. v AND MFIFOSR_RXFIFOCNT_MASK L \<noteq> MFIFOSR_RXFIFOCNT_MINIMUM L) ?trA
      = Some (?trA @ [Rd MFIFOSR (h ?trA MFIFOSR)])"
    by (simp add: spin_stop)
  let ?tr1 = "?trA @ [Rd MFIFOSR (h ?trA MFIFOSR)]"
  let ?trC = "clear_bits h MFIFOCTL (MFIFOCTL_RXFLUSH_MASK L) ?tr1 @
              [Wr MSA (read_msa L slave), Wr MCTR (read_mctr L len ty)]"
  from emptyA have "rx_level L (clear_bits h MFIFOCTL (MFIFOCTL_RXFLUSH_MASK L) ?tr1) = 0"
    by (intro rx_level_clear) (simp add: rx_level_append)
  then have levelC: "rx_level L ?trC = unat len"
    by (simp add: rx_level_append [of L _ "[Wr MSA (read_msa L slave), Wr MCTR (read_mctr L len ty)]"] field
        unat_ucast_len32)
  have "MCTR \<in> fst ` set (writes ?trC)"
    by simp
  from settled [OF this] have finished: "spin h MSR (\<lambda>v. v AND MSR_BUSY_MASK L = MSR_BUSY_SET L) ?trC
      = Some (?trC @ [Rd MSR (h ?trC MSR)])"
    by (simp add: spin_stop)
  let ?tr2 = "?trC @ [Rd MSR (h ?trC MSR)]"
  obtain r tr3 where status: "check_status L h ?tr2 = (r, tr3)"
    by (cases "check_status L h ?tr2")
  from check_status_shape [of L h ?tr2] status obtain st where "tr3 = ?tr2 @ map (Rd MSR) st"
    by auto
  then have "tr3 = ?trC @ map (Rd MSR) (h ?trC MSR # st)"
    by simp
  with levelC have "rx_level L tr3 = unat len"
    by (simp only: rx_level_reads)
  with queue fits have "rx_count L (h tr3 MFIFOSR) = ucast len"
    by (simp add: rx_queue8_def min_absorb2)
  then have arrived: "spin h MFIFOSR (\<lambda>v. rx_count L v < ucast len) tr3
      = Some (tr3 @ [Rd MFIFOSR (h tr3 MFIFOSR)])"
    by (simp add: spin_stop)
  let ?tr4 = "tr3 @ [Rd MFIFOSR (h tr3 MFIFOSR)]"
  obtain drained tr5 where drain: "drain_loop L h len 0 buffer ?tr4 = (drained, tr5)"
    by (cases "drain_loop L h len 0 buffer ?tr4")
  have "I2C_mstr_read_internal L h slave buffer len ty tr =
          Some (r, if r = I2C_SUCCESS then drained else buffer,
                if r = I2C_SUCCESS then tr5 else ?tr4)"
    using tr0 flushed finished status arrived drain
    by (simp add: I2C_mstr_read_internal_def)
  then obtain buffer' tr' where result:
    "I2C_mstr_read_internal L h slave buffer len ty tr = Some (r, buffer', tr')"
    by blast
  let ?pre = "idle_ev @ [Rd MFIFOCTL (h tr0 MFIFOCTL), Wr MFIFOCTL (h tr0 MFIFOCTL OR MFIFOCTL_RXFLUSH_FLUSH L),
                Rd MFIFOSR (h ?trA MFIFOSR),
                Rd MFIFOCTL (h ?tr1 MFIFOCTL), Wr MFIFOCTL (h ?tr1 MFIFOCTL AND NOT (MFIFOCTL_RXFLUSH_MASK L))]"
  have "?tr2 = tr @ ?pre @ [Wr MSA (read_msa L slave), Wr MCTR (read_mctr L len ty), Rd MSR (h ?trC MSR)]"
    using idle_ev(1) by (simp add: set_bits_def clear_bits_def)
  moreover have "bus_writes ?pre = []"
    using idle_ev(2) by (simp add: bus_writes_def)
  ultimately show ?thesis
    using result status
    by (intro exI [of _ ?pre] exI [of _ "h ?trC MSR"] exI [of _ buffer'] exI [of _ tr']) simp
qed



lemma send_completes:
  fixes len :: "8 word"
  assumes "tx_queue8 L h" and "MFIFOCTL_TXFLUSH_FLUSH L \<noteq> 0"
    and "ty = I2C_NORMAL \<longrightarrow> h tr MSR AND MSR_IDLE_MASK L \<noteq> MSR_IDLE_CLEARED L"
    and "unat len \<le> 8"
  shows "\<exists>pre. I2C_mstr_send_internal L h slave data len ty tr =
                 Some (send_burst L h slave len ty (tr @ pre)) \<and>
               bus_writes pre = []"
proof -
  from send_on_queue8 [OF assms(1-3), of data len] assms(4) obtain tr0 tr1 tr2
    where phases: "idle_wait L h ty tr = (False, tr0)"
      "spin h MFIFOSR (\<lambda>v. v AND MFIFOSR_TXFIFOCNT_MASK L \<noteq> MFIFOSR_TXFIFOCNT_MAXIMUM L)
         (set_bits h MFIFOCTL (MFIFOCTL_TXFLUSH_FLUSH L) tr0) = Some tr1"
      "I2C_fill_tx_fifo L h data (ucast len) (clear_bits h MFIFOCTL (MFIFOCTL_TXFLUSH_MASK L) tr1)
         = Some (1, tr2)"
    by auto
  from send_load_shape [OF phases] obtain pre where pre: "tr2 = tr @ pre" "bus_writes pre = []"
    by (elim exE conjE) (rule that; assumption)
  from phases have "I2C_mstr_send_internal L h slave data len ty tr =
                      Some (send_burst L h slave len ty tr2)"
    by (simp add: I2C_mstr_send_internal_def ret_codes)
  with pre show ?thesis
    by (intro exI [of _ pre]) simp
qed

subsection \<open>A busy flag that stays set after the burst starts\<close>

lemma poll_timeout_stuck_from:
  "(\<And>es. h (tr @ es) MSR AND msk = pat) \<Longrightarrow> fst (poll_timeout h msk pat t tr)"
proof (induction h msk pat t tr rule: poll_timeout.induct)
  case (1 h msk pat timeout tr)
  from "1.prems" [of "[]"] have now: "h tr MSR AND msk = pat"
    by simp
  show ?case
  proof (cases "timeout - 1 = 0")
    case True
    with now show ?thesis
      by (subst poll_timeout.simps) simp
  next
    case False
    have "h ((tr @ [Rd MSR (h tr MSR), Delay 10]) @ es) MSR AND msk = pat" for es
      using "1.prems" [of "[Rd MSR (h tr MSR), Delay 10] @ es"] by simp
    from "1.IH" [OF now False this] now False show ?thesis
      by (subst poll_timeout.simps) simp
  qed
qed

lemma spin_None_from:
  assumes "\<And>es. stay (h (tr @ es) r)"
  shows "spin h r stay tr = None"
proof (cases "spin h r stay tr")
  case (Some tr')
  from spin_Some [OF this] assms show ?thesis by blast
qed simp

lemma send_burst_times_out:
  assumes "\<And>t. MCTR \<in> fst ` set (writes t) \<Longrightarrow> h t MSR AND MSR_BUSY_MASK L = MSR_BUSY_SET L"
  shows "\<exists>vs. send_burst L h slave len ty tr =
                (I2C_ERR_TIMEOUT,
                 tr @ [Wr MSA (send_msa L slave), Wr MCTR (send_mctr L len ty)] @ poll_events vs) \<and>
              length vs = 200000 \<and> (\<forall>v\<in>set vs. v AND MSR_BUSY_MASK L = MSR_BUSY_SET L)"
proof -
  let ?tr = "tr @ [Wr MSA (send_msa L slave), Wr MCTR (send_mctr L len ty)]"
  have "h (?tr @ es) MSR AND MSR_BUSY_MASK L = MSR_BUSY_SET L" for es
    by (rule assms) simp
  from poll_timeout_stuck_from [of h ?tr "MSR_BUSY_MASK L" "MSR_BUSY_SET L" I2C_TIMEOUT_COUNT, OF this]
  obtain tr' where poll:
    "poll_timeout h (MSR_BUSY_MASK L) (MSR_BUSY_SET L) I2C_TIMEOUT_COUNT ?tr = (True, tr')"
    by (cases "poll_timeout h (MSR_BUSY_MASK L) (MSR_BUSY_SET L) I2C_TIMEOUT_COUNT ?tr") simp
  from poll_timeout_timed_out [OF this] obtain vs
    where "tr' = ?tr @ poll_events vs" "length vs = 200000"
      "\<forall>v\<in>set vs. v AND MSR_BUSY_MASK L = MSR_BUSY_SET L"
    by blast
  with poll show ?thesis
    by (intro exI [of _ vs]) (simp add: send_burst_def)
qed

lemma read_hangs_busy:
  assumes busy: "\<And>t. MCTR \<in> fst ` set (writes t) \<Longrightarrow> h t MSR AND MSR_BUSY_MASK L = MSR_BUSY_SET L"
    and idle: "ty = I2C_NORMAL \<longrightarrow> h tr MSR AND MSR_IDLE_MASK L \<noteq> MSR_IDLE_CLEARED L"
  shows "I2C_mstr_read_internal L h slave buffer len ty tr = None"
proof (cases "I2C_mstr_read_internal L h slave buffer len ty tr")
  case None
  then show ?thesis .
next
  case (Some res)
  obtain r buffer' tr' where "res = (r, buffer', tr')"
    by (cases res)
  with Some have "I2C_mstr_read_internal L h slave buffer len ty tr = Some (r, buffer', tr')"
    by simp
  then show ?thesis
  proof (cases rule: read_unfold)
    case idle
    with \<open>ty = I2C_NORMAL \<longrightarrow> h tr MSR AND MSR_IDLE_MASK L \<noteq> MSR_IDLE_CLEARED L\<close>
    show ?thesis
      by (cases "ty = I2C_NORMAL") (simp_all add: idle_wait_def poll_timeout_pass)
  next
    case (burst tr0 tr1 tr2 tr3 tr4)
    let ?tr = "clear_bits h MFIFOCTL (MFIFOCTL_RXFLUSH_MASK L) tr1
               @ [Wr MSA (read_msa L slave), Wr MCTR (read_mctr L len ty)]"
    have "h (?tr @ es) MSR AND MSR_BUSY_MASK L = MSR_BUSY_SET L" for es
      by (rule busy) simp
    then have "spin h MSR (\<lambda>v. v AND MSR_BUSY_MASK L = MSR_BUSY_SET L) ?tr = None"
      by (intro spin_None_from) simp
    with burst(3) show ?thesis by simp
  qed
qed


subsection \<open>Where the status flags are classified\<close>



lemma read_bus_writes:
  assumes "I2C_mstr_read_internal L h slave buffer len ty tr = Some (r, buffer', tr')"
    and "r \<noteq> I2C_ERR_TIMEOUT"
  shows "\<exists>ev. tr' = tr @ ev \<and>
              bus_writes ev = [(MSA, read_msa L slave), (MCTR, read_mctr L len ty)]"
proof -
  from read_trace [OF assms] obtain pre ss cs c ws
    where tr': "tr' = tr @ pre @ [Wr MSA (read_msa L slave), Wr MCTR (read_mctr L len ty)] @
                 map (Rd MSR) ss @ map (Rd MFIFOSR) cs @ [Rd MFIFOSR c] @ drain_events ws"
      and pre: "fst ` set (reads pre) \<subseteq> {MSR, MFIFOCTL, MFIFOSR}"
    by (elim exE conjE) (rule that; assumption)
  from read_mctr_writes [OF assms(1)] obtain ev
    where ev: "tr' = tr @ ev"
      "bus_writes ev \<in> {[], [(MSA, read_msa L slave), (MCTR, read_mctr L len ty)]}"
    by blast
  from tr' ev(1) have "(MCTR, read_mctr L len ty) \<in> set (bus_writes ev)"
    by (auto simp: bus_writes_def)
  with ev show ?thesis
    by (intro exI [of _ ev]) auto
qed

lemma send_bus_writes:
  assumes "I2C_mstr_send_internal L h slave data len ty tr = Some (r, tr')"
    and "r \<noteq> I2C_FIFO_LOAD_ERROR"
    and "r \<noteq> I2C_ERR_TIMEOUT \<or>
         (ty = I2C_NORMAL \<longrightarrow> h tr MSR AND MSR_IDLE_MASK L \<noteq> MSR_IDLE_CLEARED L)"
  shows "\<exists>ev. tr' = tr @ ev \<and>
              bus_writes ev = [(MSA, send_msa L slave), (MCTR, send_mctr L len ty)]"
  using assms(1)
proof (cases rule: send_unfold)
  case idle
  with assms(3) show ?thesis
    by (cases "ty = I2C_NORMAL") (simp_all add: idle_wait_def poll_timeout_pass)
next
  case (fifo tr0 tr1)
  with assms(2) show ?thesis by simp
next
  case (burst tr0 tr1 filled tr2)
  from send_load_shape [OF burst(1-3)] obtain pre where pre: "tr2 = tr @ pre" "bus_writes pre = []"
    by (elim exE conjE) (rule that; assumption)
  from send_burst_shape [OF burst(5)] obtain vs post
    where "tr' = tr2 @ [Wr MSA (send_msa L slave), Wr MCTR (send_mctr L len ty)] @
                 poll_events vs @ map (Rd MSR) post"
    by (elim exE conjE) (rule that; assumption)
  with pre show ?thesis
    by (intro exI [of _ "pre @ [Wr MSA (send_msa L slave), Wr MCTR (send_mctr L len ty)] @
                 poll_events vs @ map (Rd MSR) post"])
       (simp add: bus_writes_def)
qed

subsection \<open>The simulated controllers have queues of eight entries\<close>

lemma rx_level_sim: "rx_level mspm0_hdr t = rx_avail t"
proof -
  have "rx_level_step mspm0_hdr n e = rx_step n e" for n e
    by (cases e) (simp_all add: mblen_def mspm0_hdr_def)
  then have "rx_level_step mspm0_hdr = rx_step"
    by (intro ext)
  then show ?thesis
    by (simp add: rx_level_def rx_avail_def)
qed

lemma sim_hw_rx_queue8: "rx_queue8 mspm0_hdr (sim_hw status rx)"
proof -
  have "sim_hw status rx t MFIFOSR AND MFIFOSR_RXFIFOCNT_MASK mspm0_hdr
          = MFIFOSR_RXFIFOCNT_MINIMUM mspm0_hdr" if "rx_avail t = 0" for t
    using rx_field_of_sim [of "8 - tx_pending mspm0_hdr t" 0] that
    by (simp add: sim_hw_def) (simp add: mspm0_hdr_def)
  then show ?thesis
    by (simp add: rx_queue8_def rx_level_sim sim_hw_rx_count)
qed


subsection \<open>The bytes of a send call that fails to load\<close>

lemma send_fifo_error_bytes:
  assumes "I2C_mstr_send_internal L h slave data len ty tr = Some (I2C_FIFO_LOAD_ERROR, tr')"
  shows "map snd (filter (\<lambda>(r, v). r = MTXDATA) (writes (drop (length tr) tr'))) =
           map (\<lambda>k. ucast (data k)) [0..<unat len]"
  using assms
proof (cases rule: send_unfold)
  case idle
  then show ?thesis by (simp add: ret_codes)
next
  case (fifo tr0 tr1)
  from send_load_shape [OF fifo(1-3)] obtain pre
    where "tr' = tr @ pre"
      "map snd (filter (\<lambda>(r, v). r = MTXDATA) (writes pre)) = map (\<lambda>k. ucast (data k)) [0..<unat len]"
    by (elim exE conjE) (rule that; assumption)
  then show ?thesis by simp
next
  case (burst tr0 tr1 filled tr2)
  from send_burst_codes [of L h slave len ty tr2] burst(5) show ?thesis
    by (auto simp: ret_codes)
qed

subsection \<open>A busy flag that is clear after the burst starts\<close>



subsection \<open>START and STOP in the control word\<close>

text \<open>
  C1. For each of the four burst types and for both engines, the control word written to
  MCTR has the STOP bit exactly when the type is \<^verbatim>\<open>I2C_NORMAL\<close> or
  \<^verbatim>\<open>I2C_END\<close>, and has the START bit for every type. A call that returns has
  written no other value to MCTR. A send call that returns, unless it stopped in the idle
  wait or on a full queue, and a receive call that returns anything but
  \<^verbatim>\<open>I2C_ERR_TIMEOUT\<close>, has written exactly the slave address to MSA and then
  that control word to MCTR. On a controller with a queue of eight entries, with the bus
  idle when an \<^verbatim>\<open>I2C_NORMAL\<close> call starts, a send call of up to eight bytes
  returns and has made these two writes; so does a receive call of up to eight bytes
  when the busy flag is clear once MCTR is written and the control word carries the
  length in its length field. The STOP bit is taken to be a non-zero bit pattern that
  shares no bit with the other parts of the control word.
\<close>

theorem control_word_start_stop:
  assumes "MCTR_STOP_ENABLE L \<noteq> 0"
    and "MCTR_STOP_ENABLE L AND
           (MCTR_ACK_DISABLE L OR MCTR_ACK_ENABLE L OR MCTR_START_ENABLE L OR
            MCTR_BURSTRUN_ENABLE L OR MCTR_MBLEN_MASK L) = 0"
  shows "(send_mctr L len ty AND MCTR_STOP_ENABLE L = MCTR_STOP_ENABLE L
            \<longleftrightarrow> ty = I2C_NORMAL \<or> ty = I2C_END) \<and>
         (read_mctr L len ty AND MCTR_STOP_ENABLE L = MCTR_STOP_ENABLE L
            \<longleftrightarrow> ty = I2C_NORMAL \<or> ty = I2C_END) \<and>
         send_mctr L len ty AND MCTR_START_ENABLE L = MCTR_START_ENABLE L \<and>
         read_mctr L len ty AND MCTR_START_ENABLE L = MCTR_START_ENABLE L \<and>
         (I2C_mstr_send_internal L h slave data len ty tr = Some (r, tr') \<longrightarrow>
            (\<forall>w. (MCTR, w) \<in> set (writes (drop (length tr) tr')) \<longrightarrow> w = send_mctr L len ty)) \<and>
         (I2C_mstr_read_internal L h slave buffer len ty tr = Some (rr, buffer', tr'') \<longrightarrow>
            (\<forall>w. (MCTR, w) \<in> set (writes (drop (length tr) tr'')) \<longrightarrow> w = read_mctr L len ty)) \<and>
         (I2C_mstr_send_internal L h slave data len ty tr = Some (r, tr') \<and>
          r \<noteq> I2C_FIFO_LOAD_ERROR \<and>
          (r \<noteq> I2C_ERR_TIMEOUT \<or>
           (ty = I2C_NORMAL \<longrightarrow> h tr MSR AND MSR_IDLE_MASK L \<noteq> MSR_IDLE_CLEARED L)) \<longrightarrow>
            bus_writes (drop (length tr) tr') =
              [(MSA, send_msa L slave), (MCTR, send_mctr L len ty)]) \<and>
         (I2C_mstr_read_internal L h slave buffer len ty tr = Some (rr, buffer', tr'') \<and>
          rr \<noteq> I2C_ERR_TIMEOUT \<longrightarrow>
            bus_writes (drop (length tr) tr'') =
              [(MSA, read_msa L slave), (MCTR, read_mctr L len ty)]) \<and>
         (tx_queue8 L h \<and> MFIFOCTL_TXFLUSH_FLUSH L \<noteq> 0 \<and>
          (ty = I2C_NORMAL \<longrightarrow> h tr MSR AND MSR_IDLE_MASK L \<noteq> MSR_IDLE_CLEARED L) \<and>
          unat len \<le> 8 \<longrightarrow>
            (\<exists>ret ev. I2C_mstr_send_internal L h slave data len ty tr = Some (ret, tr @ ev) \<and>
               bus_writes ev = [(MSA, send_msa L slave), (MCTR, send_mctr L len ty)])) \<and>
         (rx_queue8 L h \<and> MFIFOCTL_RXFLUSH_FLUSH L \<noteq> 0 \<and>
          (ty = I2C_NORMAL \<longrightarrow> h tr MSR AND MSR_IDLE_MASK L \<noteq> MSR_IDLE_CLEARED L) \<and>
          (\<forall>t. MCTR \<in> fst ` set (writes t) \<longrightarrow> h t MSR AND MSR_BUSY_MASK L \<noteq> MSR_BUSY_SET L) \<and>
          mblen L (read_mctr L len ty) = ucast len \<and> unat len \<le> 8 \<longrightarrow>
            (\<exists>ret filled ev.
               I2C_mstr_read_internal L h slave buffer len ty tr = Some (ret, filled, tr @ ev) \<and>
               bus_writes ev = [(MSA, read_msa L slave), (MCTR, read_mctr L len ty)]))"
proof (intro conjI impI allI)
  show "send_mctr L len ty AND MCTR_STOP_ENABLE L = MCTR_STOP_ENABLE L
          \<longleftrightarrow> ty = I2C_NORMAL \<or> ty = I2C_END"
  proof (cases "ty = I2C_NORMAL \<or> ty = I2C_END")
    case True
    from part_set [OF stop_in_mode [OF True]] True show ?thesis
      by (simp add: send_mctr_def)
  next
    case False
    then have "i2c_transaction_mode L ty = MCTR_START_ENABLE L"
      by (cases ty) simp_all
    with stop_bit_clear(1) [OF assms] False show ?thesis
      by (simp add: send_mctr_def)
  qed
  show "read_mctr L len ty AND MCTR_STOP_ENABLE L = MCTR_STOP_ENABLE L
          \<longleftrightarrow> ty = I2C_NORMAL \<or> ty = I2C_END"
  proof (cases "ty = I2C_NORMAL \<or> ty = I2C_END")
    case True
    from part_set [OF stop_in_mode [OF True]] True show ?thesis
      by (simp add: read_mctr_def)
  next
    case False
    then have "i2c_transaction_mode L ty = MCTR_START_ENABLE L"
      by (cases ty) simp_all
    with stop_bit_clear(2) [OF assms] False show ?thesis
      by (simp add: read_mctr_def)
  qed
  show "send_mctr L len ty AND MCTR_START_ENABLE L = MCTR_START_ENABLE L"
    unfolding send_mctr_def by (rule part_set [OF start_in_mode])
  show "read_mctr L len ty AND MCTR_START_ENABLE L = MCTR_START_ENABLE L"
    unfolding read_mctr_def by (rule part_set [OF start_in_mode])
next
  fix w
  assume "I2C_mstr_send_internal L h slave data len ty tr = Some (r, tr')"
    and w: "(MCTR, w) \<in> set (writes (drop (length tr) tr'))"
  from send_mctr_writes [OF this(1)] obtain ev
    where "tr' = tr @ ev"
      "bus_writes ev \<in> {[], [(MSA, send_msa L slave), (MCTR, send_mctr L len ty)]}"
    by blast
  moreover from this(1) w have "(MCTR, w) \<in> set (bus_writes ev)"
    by (simp add: bus_writes_def)
  ultimately show "w = send_mctr L len ty"
    by auto
next
  fix w
  assume "I2C_mstr_read_internal L h slave buffer len ty tr = Some (rr, buffer', tr'')"
    and w: "(MCTR, w) \<in> set (writes (drop (length tr) tr''))"
  from read_mctr_writes [OF this(1)] obtain ev
    where "tr'' = tr @ ev"
      "bus_writes ev \<in> {[], [(MSA, read_msa L slave), (MCTR, read_mctr L len ty)]}"
    by blast
  moreover from this(1) w have "(MCTR, w) \<in> set (bus_writes ev)"
    by (simp add: bus_writes_def)
  ultimately show "w = read_mctr L len ty"
    by auto
next
  assume "I2C_mstr_send_internal L h slave data len ty tr = Some (r, tr') \<and>
          r \<noteq> I2C_FIFO_LOAD_ERROR \<and>
          (r \<noteq> I2C_ERR_TIMEOUT \<or>
           (ty = I2C_NORMAL \<longrightarrow> h tr MSR AND MSR_IDLE_MASK L \<noteq> MSR_IDLE_CLEARED L))"
  then have "\<exists>ev. tr' = tr @ ev \<and>
              bus_writes ev = [(MSA, send_msa L slave), (MCTR, send_mctr L len ty)]"
    by (intro send_bus_writes [of L h slave data len ty tr r]) simp_all
  then show "bus_writes (drop (length tr) tr') =
              [(MSA, send_msa L slave), (MCTR, send_mctr L len ty)]"
    by auto
next
  assume "I2C_mstr_read_internal L h slave buffer len ty tr = Some (rr, buffer', tr'') \<and>
          rr \<noteq> I2C_ERR_TIMEOUT"
  then have "\<exists>ev. tr'' = tr @ ev \<and>
              bus_writes ev = [(MSA, read_msa L slave), (MCTR, read_mctr L len ty)]"
    by (intro read_bus_writes [of L h slave buffer len ty tr rr buffer']) simp_all
  then show "bus_writes (drop (length tr) tr'') =
              [(MSA, read_msa L slave), (MCTR, read_mctr L len ty)]"
    by auto
next
  assume hw: "tx_queue8 L h \<and> MFIFOCTL_TXFLUSH_FLUSH L \<noteq> 0 \<and>
          (ty = I2C_NORMAL \<longrightarrow> h tr MSR AND MSR_IDLE_MASK L \<noteq> MSR_IDLE_CLEARED L) \<and>
          unat len \<le> 8"
  then obtain pre where sent: "I2C_mstr_send_internal L h slave data len ty tr =
                 Some (send_burst L h slave len ty (tr @ pre))"
    using send_completes [of L h ty tr len slave data] by blast
  obtain ret tr1 where burst: "send_burst L h slave len ty (tr @ pre) = (ret, tr1)"
    by (cases "send_burst L h slave len ty (tr @ pre)")
  from send_burst_codes [of L h slave len ty "tr @ pre"] burst
  have "ret \<noteq> I2C_FIFO_LOAD_ERROR"
    by (auto simp: ret_codes)
  with send_bus_writes [of L h slave data len ty tr ret tr1] sent burst hw
  obtain ev where "tr1 = tr @ ev"
    "bus_writes ev = [(MSA, send_msa L slave), (MCTR, send_mctr L len ty)]"
    by auto
  with sent burst
  show "\<exists>ret ev. I2C_mstr_send_internal L h slave data len ty tr = Some (ret, tr @ ev) \<and>
               bus_writes ev = [(MSA, send_msa L slave), (MCTR, send_mctr L len ty)]"
    by auto
next
  assume hw: "rx_queue8 L h \<and> MFIFOCTL_RXFLUSH_FLUSH L \<noteq> 0 \<and>
          (ty = I2C_NORMAL \<longrightarrow> h tr MSR AND MSR_IDLE_MASK L \<noteq> MSR_IDLE_CLEARED L) \<and>
          (\<forall>t. MCTR \<in> fst ` set (writes t) \<longrightarrow> h t MSR AND MSR_BUSY_MASK L \<noteq> MSR_BUSY_SET L) \<and>
          mblen L (read_mctr L len ty) = ucast len \<and> unat len \<le> 8"
  then obtain tw filled tr1 where received:
    "I2C_mstr_read_internal L h slave buffer len ty tr =
       Some (fst (check_status L h tw), filled, tr1)"
    using read_completes [of L h ty tr len slave buffer] by blast
  have "fst (check_status L h tw) \<noteq> I2C_ERR_TIMEOUT"
    using check_status_codes [of L h tw] by (auto simp: ret_codes)
  from read_bus_writes [OF received this] received
  show "\<exists>ret filled ev.
               I2C_mstr_read_internal L h slave buffer len ty tr = Some (ret, filled, tr @ ev) \<and>
               bus_writes ev = [(MSA, read_msa L slave), (MCTR, read_mctr L len ty)]"
    by auto
qed

text \<open>
  The theorem on a send and a receive of one byte, of type \<^verbatim>\<open>I2C_START\<close>, on the
  simulated controller with MSR reading 0x20 (idle, not busy, no flag): the control
  words are 0x10003 and 0x1000B, with START and without STOP.
\<close>

theorem control_word_start_stop_witness:
  "MCTR_STOP_ENABLE mspm0_hdr \<noteq> 0 \<and>
   MCTR_STOP_ENABLE mspm0_hdr AND
     (MCTR_ACK_DISABLE mspm0_hdr OR MCTR_ACK_ENABLE mspm0_hdr OR MCTR_START_ENABLE mspm0_hdr OR
      MCTR_BURSTRUN_ENABLE mspm0_hdr OR MCTR_MBLEN_MASK mspm0_hdr) = 0 \<and>
   tx_queue8 mspm0_hdr (sim_hw 0x20 ramp) \<and> rx_queue8 mspm0_hdr (sim_hw 0x20 ramp) \<and>
   MFIFOCTL_TXFLUSH_FLUSH mspm0_hdr \<noteq> 0 \<and> MFIFOCTL_RXFLUSH_FLUSH mspm0_hdr \<noteq> 0 \<and>
   (\<forall>t. sim_hw 0x20 ramp t MSR AND MSR_BUSY_MASK mspm0_hdr \<noteq> MSR_BUSY_SET mspm0_hdr) \<and>
   mblen mspm0_hdr (read_mctr mspm0_hdr 1 I2C_START) = ucast (1 :: 8 word) \<and>
   unat (1 :: 8 word) \<le> 8 \<and>
   I2C_mstr_send_internal mspm0_hdr (sim_hw 0x20 ramp) 0x27 ramp 1 I2C_START [] =
     Some (I2C_SUCCESS,
           [Rd MFIFOCTL 0, Wr MFIFOCTL 0x80, Rd MFIFOSR 0x800, Rd MFIFOCTL 0, Wr MFIFOCTL 0,
            Rd MFIFOSR 0x800, Wr MTXDATA 0, Wr MSA 0x4E, Wr MCTR 0x10003,
            Rd MSR 0x20, Rd MSR 0x20, Rd MSR 0x20]) \<and>
   map_option (\<lambda>(ret, filled, t). (ret, t))
     (I2C_mstr_read_internal mspm0_hdr (sim_hw 0x20 ramp) 0x27 ramp 1 I2C_START []) =
     Some (I2C_SUCCESS,
           [Rd MFIFOCTL 0, Wr MFIFOCTL 0x8000, Rd MFIFOSR 0x800, Rd MFIFOCTL 0, Wr MFIFOCTL 0,
            Wr MSA 0x4F, Wr MCTR 0x1000B, Rd MSR 0x20, Rd MSR 0x20, Rd MSR 0x20,
            Rd MFIFOSR 0x801, Rd MRXDATA 0, Delay 30]) \<and>
   send_mctr mspm0_hdr 1 I2C_START = 0x10003 \<and>
   read_mctr mspm0_hdr 1 I2C_START = 0x1000B \<and>
   send_msa mspm0_hdr 0x27 = 0x4E \<and> read_msa mspm0_hdr 0x27 = 0x4F \<and>
   send_mctr mspm0_hdr 1 I2C_START AND MCTR_STOP_ENABLE mspm0_hdr \<noteq> MCTR_STOP_ENABLE mspm0_hdr \<and>
   read_mctr mspm0_hdr 1 I2C_START AND MCTR_STOP_ENABLE mspm0_hdr \<noteq> MCTR_STOP_ENABLE mspm0_hdr \<and>
   send_mctr mspm0_hdr 1 I2C_START AND MCTR_START_ENABLE mspm0_hdr = MCTR_START_ENABLE mspm0_hdr \<and>
   read_mctr mspm0_hdr 1 I2C_START AND MCTR_START_ENABLE mspm0_hdr = MCTR_START_ENABLE mspm0_hdr"
proof -
  let ?h = "sim_hw 0x20 ramp"
  have stop: "MCTR_STOP_ENABLE mspm0_hdr \<noteq> 0"
    by (simp add: mspm0_hdr_def)
  have apart: "MCTR_STOP_ENABLE mspm0_hdr AND
     (MCTR_ACK_DISABLE mspm0_hdr OR MCTR_ACK_ENABLE mspm0_hdr OR MCTR_START_ENABLE mspm0_hdr OR
      MCTR_BURSTRUN_ENABLE mspm0_hdr OR MCTR_MBLEN_MASK mspm0_hdr) = 0"
    by (simp add: mspm0_hdr_def)
  have queues: "tx_queue8 mspm0_hdr ?h" "rx_queue8 mspm0_hdr ?h"
    by (rule sim_hw_queue8, rule sim_hw_rx_queue8)
  have flush: "MFIFOCTL_TXFLUSH_FLUSH mspm0_hdr \<noteq> 0" "MFIFOCTL_RXFLUSH_FLUSH mspm0_hdr \<noteq> 0"
    by (simp_all add: mspm0_hdr_def)
  have settled: "\<forall>t. ?h t MSR AND MSR_BUSY_MASK mspm0_hdr \<noteq> MSR_BUSY_SET mspm0_hdr"
    by (simp add: sim_hw_def mspm0_hdr_def)
  have field: "mblen mspm0_hdr (read_mctr mspm0_hdr 1 I2C_START) = ucast (1 :: 8 word)"
    by (simp add: mblen_def read_mctr_def mspm0_hdr_def push_bit_eq_mult drop_bit_eq_div)
  have fits: "unat (1 :: 8 word) \<le> 8"
    by simp
  let ?tr = "[Rd MFIFOCTL 0, Wr MFIFOCTL 0x80, Rd MFIFOSR 0x800, Rd MFIFOCTL 0, Wr MFIFOCTL 0,
            Rd MFIFOSR 0x800, Wr MTXDATA 0, Wr MSA 0x4E, Wr MCTR 0x10003,
            Rd MSR 0x20, Rd MSR 0x20, Rd MSR 0x20]"
  let ?rd = "[Rd MFIFOCTL 0, Wr MFIFOCTL 0x8000, Rd MFIFOSR 0x800, Rd MFIFOCTL 0, Wr MFIFOCTL 0,
            Wr MSA 0x4F, Wr MCTR 0x1000B, Rd MSR 0x20, Rd MSR 0x20, Rd MSR 0x20,
            Rd MFIFOSR 0x801, Rd MRXDATA 0, Delay 30]"
  have sent: "I2C_mstr_send_internal mspm0_hdr ?h 0x27 ramp 1 I2C_START [] =
     Some (I2C_SUCCESS, ?tr)"
    by (simp add: run_simps)
  have received: "I2C_mstr_read_internal mspm0_hdr ?h 0x27 ramp 1 I2C_START [] =
     Some (I2C_SUCCESS, ramp(0 := 0), ?rd)"
    by (simp add: run_simps)
  have codes: "I2C_SUCCESS \<noteq> I2C_ERR_TIMEOUT" "I2C_SUCCESS \<noteq> I2C_FIFO_LOAD_ERROR"
    by (simp_all add: ret_codes)
  note cw = control_word_start_stop [OF stop apart, where len = 1 and ty = I2C_START
      and h = "?h" and slave = "0x27" and data = ramp and buffer = ramp and tr = "[]"
      and r = I2C_SUCCESS and tr' = "?tr"
      and rr = I2C_SUCCESS and buffer' = "ramp(0 := 0)" and tr'' = "?rd"]
  from cw have bits: "send_mctr mspm0_hdr 1 I2C_START AND MCTR_STOP_ENABLE mspm0_hdr
                  \<noteq> MCTR_STOP_ENABLE mspm0_hdr"
    "read_mctr mspm0_hdr 1 I2C_START AND MCTR_STOP_ENABLE mspm0_hdr
                  \<noteq> MCTR_STOP_ENABLE mspm0_hdr"
    "send_mctr mspm0_hdr 1 I2C_START AND MCTR_START_ENABLE mspm0_hdr
           = MCTR_START_ENABLE mspm0_hdr"
    "read_mctr mspm0_hdr 1 I2C_START AND MCTR_START_ENABLE mspm0_hdr
           = MCTR_START_ENABLE mspm0_hdr"
    by simp_all
  from cw sent codes
  have "bus_writes (drop (length ([] :: trace)) ?tr) =
          [(MSA, send_msa mspm0_hdr 0x27), (MCTR, send_mctr mspm0_hdr 1 I2C_START)]"
    by blast
  then have send_words: "send_msa mspm0_hdr 0x27 = 0x4E" "send_mctr mspm0_hdr 1 I2C_START = 0x10003"
    by (simp_all add: bus_writes_def)
  from cw received codes
  have "bus_writes (drop (length ([] :: trace)) ?rd) =
          [(MSA, read_msa mspm0_hdr 0x27), (MCTR, read_mctr mspm0_hdr 1 I2C_START)]"
    by blast
  then have read_words: "read_msa mspm0_hdr 0x27 = 0x4F" "read_mctr mspm0_hdr 1 I2C_START = 0x1000B"
    by (simp_all add: bus_writes_def)
  from cw queues(1) flush(1) fits obtain ret ev
    where "I2C_mstr_send_internal mspm0_hdr ?h 0x27 ramp 1 I2C_START [] = Some (ret, [] @ ev)"
      "bus_writes ev = [(MSA, send_msa mspm0_hdr 0x27), (MCTR, send_mctr mspm0_hdr 1 I2C_START)]"
    by blast
  from cw queues(2) flush(2) settled field fits obtain ret' filled ev'
    where "I2C_mstr_read_internal mspm0_hdr ?h 0x27 ramp 1 I2C_START [] = Some (ret', filled, [] @ ev')"
      "bus_writes ev' = [(MSA, read_msa mspm0_hdr 0x27), (MCTR, read_mctr mspm0_hdr 1 I2C_START)]"
    by blast
  show ?thesis
    using stop apart queues flush settled field sent received bits send_words read_words
    by simp
qed

subsection \<open>A full transmit queue ends the send call\<close>

text \<open>
  C2. When the fill reports a full queue, the send engine does not go on to the burst:
  the call returns \<^verbatim>\<open>I2C_FIFO_LOAD_ERROR\<close> with the events it had at the end of
  the fill. A send call that returns \<^verbatim>\<open>I2C_FIFO_LOAD_ERROR\<close> has read a zero
  free-space field from MFIFOSR, has written neither MSA nor MCTR, and its last event is
  the write of the last byte to MTXDATA: no completion wait and no read of the status
  flags follows. Every byte of the call, the ones beyond the capacity of the queue
  too, has been written to MTXDATA, in order.
\<close>

theorem fifo_error_ends_call:
  "(idle_wait L h ty tr = (False, tr_idle) \<and>
    spin h MFIFOSR (\<lambda>v. v AND MFIFOSR_TXFIFOCNT_MASK L \<noteq> MFIFOSR_TXFIFOCNT_MAXIMUM L)
      (set_bits h MFIFOCTL (MFIFOCTL_TXFLUSH_FLUSH L) tr_idle) = Some tr_flush \<and>
    I2C_fill_tx_fifo L h data (ucast len) (clear_bits h MFIFOCTL (MFIFOCTL_TXFLUSH_MASK L) tr_flush)
      = Some (0, tr_fill) \<longrightarrow>
      I2C_mstr_send_internal L h slave data len ty tr = Some (I2C_FIFO_LOAD_ERROR, tr_fill)) \<and>
   (I2C_mstr_send_internal L h slave data len ty tr = Some (I2C_FIFO_LOAD_ERROR, tr') \<longrightarrow>
      (\<exists>pre b. tr' = tr @ pre @ [Wr MTXDATA b] \<and> bus_writes pre = [] \<and>
         (\<exists>v. (MFIFOSR, v) \<in> set (reads pre) \<and> v AND MFIFOSR_TXFIFOCNT_MASK L = 0))) \<and>
   (I2C_mstr_send_internal L h slave data len ty tr = Some (I2C_FIFO_LOAD_ERROR, tr') \<longrightarrow>
      map snd (filter (\<lambda>(r, v). r = MTXDATA) (writes (drop (length tr) tr'))) =
        map (\<lambda>k. ucast (data k)) [0..<unat len])"
proof (intro conjI impI)
  assume "idle_wait L h ty tr = (False, tr_idle) \<and>
    spin h MFIFOSR (\<lambda>v. v AND MFIFOSR_TXFIFOCNT_MASK L \<noteq> MFIFOSR_TXFIFOCNT_MAXIMUM L)
      (set_bits h MFIFOCTL (MFIFOCTL_TXFLUSH_FLUSH L) tr_idle) = Some tr_flush \<and>
    I2C_fill_tx_fifo L h data (ucast len) (clear_bits h MFIFOCTL (MFIFOCTL_TXFLUSH_MASK L) tr_flush)
      = Some (0, tr_fill)"
  then show "I2C_mstr_send_internal L h slave data len ty tr = Some (I2C_FIFO_LOAD_ERROR, tr_fill)"
    by (simp add: I2C_mstr_send_internal_def ret_codes)
next
  assume "I2C_mstr_send_internal L h slave data len ty tr = Some (I2C_FIFO_LOAD_ERROR, tr')"
  then show "\<exists>pre b. tr' = tr @ pre @ [Wr MTXDATA b] \<and> bus_writes pre = [] \<and>
         (\<exists>v. (MFIFOSR, v) \<in> set (reads pre) \<and> v AND MFIFOSR_TXFIFOCNT_MASK L = 0)"
    by (rule send_fifo_error_trace)
next
  assume "I2C_mstr_send_internal L h slave data len ty tr = Some (I2C_FIFO_LOAD_ERROR, tr')"
  then show "map snd (filter (\<lambda>(r, v). r = MTXDATA) (writes (drop (length tr) tr'))) =
        map (\<lambda>k. ucast (data k)) [0..<unat len]"
    by (rule send_fifo_error_bytes)
qed

text \<open>
  Nine bytes sent to a controller whose transmit queue holds eight: the ninth check reads
  a free-space field of zero, the ninth byte is written all the same, and the call
  returns \<^verbatim>\<open>I2C_FIFO_LOAD_ERROR\<close> there. MSA and MCTR are not written and MSR is
  not read again.
\<close>

theorem fifo_error_counterexample:
  "I2C_mstr_send mspm0_hdr (sim_hw 0x20 ramp) 0x27 ramp 9 [] =
     Some (I2C_FIFO_LOAD_ERROR,
       [Rd MSR 0x20, Rd MFIFOCTL 0, Wr MFIFOCTL 0x80, Rd MFIFOSR 0x800,
        Rd MFIFOCTL 0, Wr MFIFOCTL 0,
        Rd MFIFOSR 0x800, Wr MTXDATA 0, Rd MFIFOSR 0x700, Wr MTXDATA 1,
        Rd MFIFOSR 0x600, Wr MTXDATA 2, Rd MFIFOSR 0x500, Wr MTXDATA 3,
        Rd MFIFOSR 0x400, Wr MTXDATA 4, Rd MFIFOSR 0x300, Wr MTXDATA 5,
        Rd MFIFOSR 0x200, Wr MTXDATA 6, Rd MFIFOSR 0x100, Wr MTXDATA 7,
        Rd MFIFOSR 0, Wr MTXDATA 8])"
  by (simp add: I2C_mstr_send_def run_simps)

text \<open>The theorem on that call.\<close>

theorem fifo_error_ends_call_witness:
  "idle_wait mspm0_hdr (sim_hw 0x20 ramp) I2C_NORMAL [] = (False, [Rd MSR 0x20]) \<and>
   spin (sim_hw 0x20 ramp) MFIFOSR
     (\<lambda>v. v AND MFIFOSR_TXFIFOCNT_MASK mspm0_hdr \<noteq> MFIFOSR_TXFIFOCNT_MAXIMUM mspm0_hdr)
     (set_bits (sim_hw 0x20 ramp) MFIFOCTL (MFIFOCTL_TXFLUSH_FLUSH mspm0_hdr) [Rd MSR 0x20])
     = Some [Rd MSR 0x20, Rd MFIFOCTL 0, Wr MFIFOCTL 0x80, Rd MFIFOSR 0x800] \<and>
   map_option fst
     (I2C_fill_tx_fifo mspm0_hdr (sim_hw 0x20 ramp) ramp 9
        (clear_bits (sim_hw 0x20 ramp) MFIFOCTL (MFIFOCTL_TXFLUSH_MASK mspm0_hdr)
           [Rd MSR 0x20, Rd MFIFOCTL 0, Wr MFIFOCTL 0x80, Rd MFIFOSR 0x800])) = Some 0 \<and>
   map_option fst (I2C_mstr_send_internal mspm0_hdr (sim_hw 0x20 ramp) 0x27 ramp 9 I2C_NORMAL [])
     = Some I2C_FIFO_LOAD_ERROR \<and>
   map_option (bus_writes \<circ> snd)
     (I2C_mstr_send_internal mspm0_hdr (sim_hw 0x20 ramp) 0x27 ramp 9 I2C_NORMAL []) = Some [] \<and>
   map_option (map snd \<circ> filter (\<lambda>(r, v). r = MTXDATA) \<circ> writes \<circ> snd)
     (I2C_mstr_send_internal mspm0_hdr (sim_hw 0x20 ramp) 0x27 ramp 9 I2C_NORMAL [])
     = Some [0, 1, 2, 3, 4, 5, 6, 7, 8]"
proof -
  let ?h = "sim_hw 0x20 ramp"
  let ?tr1 = "[Rd MSR 0x20, Rd MFIFOCTL 0, Wr MFIFOCTL 0x80, Rd MFIFOSR 0x800]"
  let ?tr2 = "[Rd MSR 0x20, Rd MFIFOCTL 0, Wr MFIFOCTL 0x80, Rd MFIFOSR 0x800,
        Rd MFIFOCTL 0, Wr MFIFOCTL 0,
        Rd MFIFOSR 0x800, Wr MTXDATA 0, Rd MFIFOSR 0x700, Wr MTXDATA 1,
        Rd MFIFOSR 0x600, Wr MTXDATA 2, Rd MFIFOSR 0x500, Wr MTXDATA 3,
        Rd MFIFOSR 0x400, Wr MTXDATA 4, Rd MFIFOSR 0x300, Wr MTXDATA 5,
        Rd MFIFOSR 0x200, Wr MTXDATA 6, Rd MFIFOSR 0x100, Wr MTXDATA 7,
        Rd MFIFOSR 0, Wr MTXDATA 8]"
  have idle: "idle_wait mspm0_hdr ?h I2C_NORMAL [] = (False, [Rd MSR 0x20])"
    by (simp add: run_simps)
  have flushed: "spin ?h MFIFOSR
     (\<lambda>v. v AND MFIFOSR_TXFIFOCNT_MASK mspm0_hdr \<noteq> MFIFOSR_TXFIFOCNT_MAXIMUM mspm0_hdr)
     (set_bits ?h MFIFOCTL (MFIFOCTL_TXFLUSH_FLUSH mspm0_hdr) [Rd MSR 0x20]) = Some ?tr1"
    by (simp add: run_simps)
  have filled: "I2C_fill_tx_fifo mspm0_hdr ?h ramp (ucast (9 :: 8 word))
        (clear_bits ?h MFIFOCTL (MFIFOCTL_TXFLUSH_MASK mspm0_hdr) ?tr1) = Some (0, ?tr2)"
    by (simp add: run_simps)
  note fe = fifo_error_ends_call [where L = mspm0_hdr and h = "?h" and ty = I2C_NORMAL
      and tr = "[]" and tr_idle = "[Rd MSR 0x20]" and tr_flush = "?tr1" and tr_fill = "?tr2"
      and data = ramp and len = 9 and slave = "0x27" and tr' = "?tr2"]
  from fe idle flushed filled
  have sent: "I2C_mstr_send_internal mspm0_hdr ?h 0x27 ramp 9 I2C_NORMAL []
                = Some (I2C_FIFO_LOAD_ERROR, ?tr2)"
    by blast
  with fe obtain pre b where "?tr2 = [] @ pre @ [Wr MTXDATA b]" "bus_writes pre = []"
    by blast
  then have "bus_writes ?tr2 = []"
    by (simp add: bus_writes_def)
  moreover from fe sent
  have "map snd (filter (\<lambda>(r, v). r = MTXDATA) (writes (drop (length ([] :: trace)) ?tr2))) =
          map (\<lambda>k. ucast (ramp k)) [0..<unat (9 :: 8 word)]"
    by blast
  then have "map snd (filter (\<lambda>(r, v). r = MTXDATA) (writes ?tr2)) = [0, 1, 2, 3, 4, 5, 6, 7, 8]"
    by (simp add: ramp_def upt_rec_numeral)
  ultimately show ?thesis
    using idle flushed filled sent by simp
qed

subsection \<open>Where a timeout comes from\<close>

text \<open>
  C3. The idle wait is bounded in both engines. The completion wait of the receive engine
  has no bound: a receive call returns \<^verbatim>\<open>I2C_ERR_TIMEOUT\<close> only from the idle
  wait of an \<^verbatim>\<open>I2C_NORMAL\<close> call, and while the busy flag stays set it returns
  nothing else; when the busy flag is set on every read after MCTR is written, a receive
  call that passes the idle wait never returns. The completion wait of the send engine
  has the same countdown as the idle wait: a send call of any burst type returns
  \<^verbatim>\<open>I2C_ERR_TIMEOUT\<close> either from the idle wait or after the control word was
  written and 200000 reads of MSR, 10 microseconds apart, all showed the busy flag;
  while the busy flag stays set, a send call that returns has either timed out or failed
  to load the queue. On a controller with a transmit queue of eight entries whose busy
  flag is set on every read after MCTR is written, a send call of up to eight bytes, of
  any burst type, that passes the idle wait does return, with
  \<^verbatim>\<open>I2C_ERR_TIMEOUT\<close>, after the two bus writes and exactly 200000 reads of MSR.
\<close>

theorem timeout_sources:
  "(I2C_mstr_read_internal L h slave buffer len ty tr = Some (I2C_ERR_TIMEOUT, buffer', tr'') \<longrightarrow>
      ty = I2C_NORMAL \<and> buffer' = buffer \<and>
      (\<exists>vs. tr'' = tr @ poll_events vs \<and> length vs = 200000 \<and>
            (\<forall>v\<in>set vs. v AND MSR_IDLE_MASK L = MSR_IDLE_CLEARED L))) \<and>
   ((\<forall>t. h t MSR AND MSR_BUSY_MASK L = MSR_BUSY_SET L) \<and>
    I2C_mstr_read_internal L h slave buffer len ty tr = Some (rr, buffer', tr'') \<longrightarrow>
      rr = I2C_ERR_TIMEOUT) \<and>
   (I2C_mstr_send_internal L h slave data len ty tr = Some (I2C_ERR_TIMEOUT, tr') \<longrightarrow>
      (ty = I2C_NORMAL \<and>
       (\<exists>vs. tr' = tr @ poll_events vs \<and> length vs = 200000 \<and>
             (\<forall>v\<in>set vs. v AND MSR_IDLE_MASK L = MSR_IDLE_CLEARED L))) \<or>
      (\<exists>pre vs. tr' = tr @ pre @ [Wr MSA (send_msa L slave), Wr MCTR (send_mctr L len ty)] @
                      poll_events vs \<and>
                length vs = 200000 \<and>
                (\<forall>v\<in>set vs. v AND MSR_BUSY_MASK L = MSR_BUSY_SET L))) \<and>
   ((\<forall>t. h t MSR AND MSR_BUSY_MASK L = MSR_BUSY_SET L) \<and>
    I2C_mstr_send_internal L h slave data len ty tr = Some (r, tr') \<longrightarrow>
      r = I2C_ERR_TIMEOUT \<or> r = I2C_FIFO_LOAD_ERROR) \<and>
   (tx_queue8 L h \<and> MFIFOCTL_TXFLUSH_FLUSH L \<noteq> 0 \<and> unat len \<le> 8 \<and>
    (ty = I2C_NORMAL \<longrightarrow> h tr MSR AND MSR_IDLE_MASK L \<noteq> MSR_IDLE_CLEARED L) \<and>
    (\<forall>t. MCTR \<in> fst ` set (writes t) \<longrightarrow> h t MSR AND MSR_BUSY_MASK L = MSR_BUSY_SET L) \<longrightarrow>
      (\<exists>pre vs. I2C_mstr_send_internal L h slave data len ty tr =
                  Some (I2C_ERR_TIMEOUT,
                        tr @ pre @ [Wr MSA (send_msa L slave), Wr MCTR (send_mctr L len ty)] @
                        poll_events vs) \<and>
                bus_writes pre = [] \<and> length vs = 200000 \<and>
                (\<forall>v\<in>set vs. v AND MSR_BUSY_MASK L = MSR_BUSY_SET L))) \<and>
   ((ty = I2C_NORMAL \<longrightarrow> h tr MSR AND MSR_IDLE_MASK L \<noteq> MSR_IDLE_CLEARED L) \<and>
    (\<forall>t. MCTR \<in> fst ` set (writes t) \<longrightarrow> h t MSR AND MSR_BUSY_MASK L = MSR_BUSY_SET L) \<longrightarrow>
      I2C_mstr_read_internal L h slave buffer len ty tr = None)"
proof (intro conjI impI)
  assume "I2C_mstr_read_internal L h slave buffer len ty tr = Some (I2C_ERR_TIMEOUT, buffer', tr'')"
  from read_timeout_idle [OF this]
  show "ty = I2C_NORMAL" and "buffer' = buffer"
    and "\<exists>vs. tr'' = tr @ poll_events vs \<and> length vs = 200000 \<and>
            (\<forall>v\<in>set vs. v AND MSR_IDLE_MASK L = MSR_IDLE_CLEARED L)"
    by simp_all
next
  assume "(\<forall>t. h t MSR AND MSR_BUSY_MASK L = MSR_BUSY_SET L) \<and>
    I2C_mstr_read_internal L h slave buffer len ty tr = Some (rr, buffer', tr'')"
  then show "rr = I2C_ERR_TIMEOUT"
    using read_stuck_busy [of h L slave buffer len ty tr rr buffer' tr''] by simp
next
  assume "I2C_mstr_send_internal L h slave data len ty tr = Some (I2C_ERR_TIMEOUT, tr')"
  then show "(ty = I2C_NORMAL \<and>
       (\<exists>vs. tr' = tr @ poll_events vs \<and> length vs = 200000 \<and>
             (\<forall>v\<in>set vs. v AND MSR_IDLE_MASK L = MSR_IDLE_CLEARED L))) \<or>
      (\<exists>pre vs. tr' = tr @ pre @ [Wr MSA (send_msa L slave), Wr MCTR (send_mctr L len ty)] @
                      poll_events vs \<and>
                length vs = 200000 \<and>
                (\<forall>v\<in>set vs. v AND MSR_BUSY_MASK L = MSR_BUSY_SET L))"
    by (rule send_timeout_cases)
next
  assume stuck: "(\<forall>t. h t MSR AND MSR_BUSY_MASK L = MSR_BUSY_SET L) \<and>
    I2C_mstr_send_internal L h slave data len ty tr = Some (r, tr')"
  then have "I2C_mstr_send_internal L h slave data len ty tr = Some (r, tr')" ..
  then show "r = I2C_ERR_TIMEOUT \<or> r = I2C_FIFO_LOAD_ERROR"
  proof (cases rule: send_unfold)
    case (burst tr0 tr1 filled tr2)
    from stuck send_burst_stuck [of h L slave len ty tr2] burst(5) show ?thesis
      by simp
  qed simp_all
next
  assume hw: "tx_queue8 L h \<and> MFIFOCTL_TXFLUSH_FLUSH L \<noteq> 0 \<and> unat len \<le> 8 \<and>
    (ty = I2C_NORMAL \<longrightarrow> h tr MSR AND MSR_IDLE_MASK L \<noteq> MSR_IDLE_CLEARED L) \<and>
    (\<forall>t. MCTR \<in> fst ` set (writes t) \<longrightarrow> h t MSR AND MSR_BUSY_MASK L = MSR_BUSY_SET L)"
  then obtain pre where sent: "I2C_mstr_send_internal L h slave data len ty tr =
                 Some (send_burst L h slave len ty (tr @ pre))" and pre: "bus_writes pre = []"
    using send_completes [of L h ty tr len slave data] by blast
  from hw have "\<And>t. MCTR \<in> fst ` set (writes t) \<Longrightarrow> h t MSR AND MSR_BUSY_MASK L = MSR_BUSY_SET L"
    by simp
  from send_burst_times_out [of h L slave len ty "tr @ pre", OF this] obtain vs
    where "send_burst L h slave len ty (tr @ pre) =
             (I2C_ERR_TIMEOUT,
              (tr @ pre) @ [Wr MSA (send_msa L slave), Wr MCTR (send_mctr L len ty)] @
              poll_events vs)"
      "length vs = 200000" "\<forall>v\<in>set vs. v AND MSR_BUSY_MASK L = MSR_BUSY_SET L"
    by blast
  with sent pre
  show "\<exists>pre vs. I2C_mstr_send_internal L h slave data len ty tr =
                  Some (I2C_ERR_TIMEOUT,
                        tr @ pre @ [Wr MSA (send_msa L slave), Wr MCTR (send_mctr L len ty)] @
                        poll_events vs) \<and>
                bus_writes pre = [] \<and> length vs = 200000 \<and>
                (\<forall>v\<in>set vs. v AND MSR_BUSY_MASK L = MSR_BUSY_SET L)"
    by (intro exI [of _ pre] exI [of _ vs]) simp
next
  assume "(ty = I2C_NORMAL \<longrightarrow> h tr MSR AND MSR_IDLE_MASK L \<noteq> MSR_IDLE_CLEARED L) \<and>
    (\<forall>t. MCTR \<in> fst ` set (writes t) \<longrightarrow> h t MSR AND MSR_BUSY_MASK L = MSR_BUSY_SET L)"
  then show "I2C_mstr_read_internal L h slave buffer len ty tr = None"
    by (intro read_hangs_busy) simp_all
qed

text \<open>
  A send call of type \<^verbatim>\<open>I2C_START\<close>, which has no idle wait, on a controller whose
  busy flag never clears: it returns \<^verbatim>\<open>I2C_ERR_TIMEOUT\<close>.
\<close>

theorem completion_timeout_counterexample:
  "map_option fst (I2C_mstr_send_start mspm0_hdr (sim_hw 0x21 ramp) 0x27 ramp 1 [])
     = Some I2C_ERR_TIMEOUT"
proof -
  have "fst (send_burst mspm0_hdr (sim_hw 0x21 ramp) slave len ty tr) = I2C_ERR_TIMEOUT"
    for slave len ty tr
    by (rule send_burst_stuck) (simp add: sim_hw_def mspm0_hdr_def)
  then show ?thesis
    by (simp add: I2C_mstr_send_start_def I2C_mstr_send_internal_def idle_wait_def sim_defs
        spin_stop I2C_fill_tx_fifo_def fill_loop_go fill_loop_stop push_bit_eq_mult ret_codes)
qed

text \<open>
  The theorem at two concrete inputs. On a controller whose MSR always reads 1 (busy, not
  idle), calls of type \<^verbatim>\<open>I2C_NORMAL\<close> time out in the idle wait. On a controller
  whose MSR always reads 0x21 (idle and busy), a send of one byte of type
  \<^verbatim>\<open>I2C_END\<close> loads the queue, writes MSA and MCTR and times out in the
  completion wait, after 200000 reads of MSR; the receive call of the same type never
  returns.
\<close>

theorem timeout_sources_witness:
  "(\<forall>t. sim_hw 1 ramp t MSR AND MSR_BUSY_MASK mspm0_hdr = MSR_BUSY_SET mspm0_hdr) \<and>
   map_option fst (I2C_mstr_read_internal mspm0_hdr (sim_hw 1 ramp) 0x27 ramp 1 I2C_NORMAL [])
     = Some I2C_ERR_TIMEOUT \<and>
   map_option fst (I2C_mstr_send_internal mspm0_hdr (sim_hw 1 ramp) 0x27 ramp 1 I2C_NORMAL [])
     = Some I2C_ERR_TIMEOUT \<and>
   map_option (length \<circ> reads \<circ> snd \<circ> snd)
     (I2C_mstr_read_internal mspm0_hdr (sim_hw 1 ramp) 0x27 ramp 1 I2C_NORMAL []) = Some 200000 \<and>
   tx_queue8 mspm0_hdr (sim_hw 0x21 ramp) \<and> MFIFOCTL_TXFLUSH_FLUSH mspm0_hdr \<noteq> 0 \<and>
   unat (1 :: 8 word) \<le> 8 \<and>
   (\<forall>t. sim_hw 0x21 ramp t MSR AND MSR_BUSY_MASK mspm0_hdr = MSR_BUSY_SET mspm0_hdr) \<and>
   map_option fst (I2C_mstr_send_internal mspm0_hdr (sim_hw 0x21 ramp) 0x27 ramp 1 I2C_END [])
     = Some I2C_ERR_TIMEOUT \<and>
   map_option (bus_writes \<circ> snd)
     (I2C_mstr_send_internal mspm0_hdr (sim_hw 0x21 ramp) 0x27 ramp 1 I2C_END [])
     = Some [(MSA, 0x4E), (MCTR, 0x10007)] \<and>
   map_option (take 9 \<circ> snd)
     (I2C_mstr_send_internal mspm0_hdr (sim_hw 0x21 ramp) 0x27 ramp 1 I2C_END [])
     = Some [Rd MFIFOCTL 0, Wr MFIFOCTL 0x80, Rd MFIFOSR 0x800, Rd MFIFOCTL 0, Wr MFIFOCTL 0,
             Rd MFIFOSR 0x800, Wr MTXDATA 0, Wr MSA 0x4E, Wr MCTR 0x10007] \<and>
   map_option (length \<circ> filter (\<lambda>x. fst x = MSR) \<circ> reads \<circ> snd)
     (I2C_mstr_send_internal mspm0_hdr (sim_hw 0x21 ramp) 0x27 ramp 1 I2C_END []) = Some 200000 \<and>
   I2C_mstr_read_internal mspm0_hdr (sim_hw 0x21 ramp) 0x27 ramp 1 I2C_END [] = None"
proof -
  have busy: "\<forall>t. sim_hw 1 ramp t MSR AND MSR_BUSY_MASK mspm0_hdr = MSR_BUSY_SET mspm0_hdr"
    by (simp add: sim_hw_def mspm0_hdr_def)
  have "sim_hw 1 ramp t MSR AND MSR_IDLE_MASK mspm0_hdr = MSR_IDLE_CLEARED mspm0_hdr" for t
    by (simp add: sim_hw_def mspm0_hdr_def)
  from idle_wait_never_idle [of "sim_hw 1 ramp" mspm0_hdr "[]", OF this] obtain vs
    where idle: "idle_wait mspm0_hdr (sim_hw 1 ramp) I2C_NORMAL [] = (True, [] @ poll_events vs)"
    by blast
  have received: "I2C_mstr_read_internal mspm0_hdr (sim_hw 1 ramp) 0x27 ramp 1 I2C_NORMAL []
                    = Some (I2C_ERR_TIMEOUT, ramp, poll_events vs)"
    by (simp add: I2C_mstr_read_internal_def idle)
  have sent: "I2C_mstr_send_internal mspm0_hdr (sim_hw 1 ramp) 0x27 ramp 1 I2C_NORMAL []
                = Some (I2C_ERR_TIMEOUT, poll_events vs)"
    by (simp add: I2C_mstr_send_internal_def idle)
  note ts = timeout_sources [where L = mspm0_hdr and h = "sim_hw 1 ramp" and slave = "0x27"
      and buffer = ramp and data = ramp and len = 1 and ty = I2C_NORMAL and tr = "[]"
      and buffer' = ramp and tr'' = "poll_events vs" and tr' = "poll_events vs"
      and rr = I2C_ERR_TIMEOUT and r = I2C_ERR_TIMEOUT]
  from ts received obtain ws where "poll_events vs = [] @ poll_events ws" "length ws = 200000"
    by blast
  then have polls: "length (reads (poll_events vs)) = 200000"
    by simp
  let ?h = "sim_hw 0x21 ramp"
  let ?pre = "[Rd MFIFOCTL 0, Wr MFIFOCTL 0x80, Rd MFIFOSR 0x800, Rd MFIFOCTL 0, Wr MFIFOCTL 0,
               Rd MFIFOSR 0x800, Wr MTXDATA 0]"
  have queue: "tx_queue8 mspm0_hdr ?h"
    by (rule sim_hw_queue8)
  have flush: "MFIFOCTL_TXFLUSH_FLUSH mspm0_hdr \<noteq> 0"
    by (simp add: mspm0_hdr_def)
  have fits: "unat (1 :: 8 word) \<le> 8"
    by simp
  have stuck: "\<forall>t. ?h t MSR AND MSR_BUSY_MASK mspm0_hdr = MSR_BUSY_SET mspm0_hdr"
    by (simp add: sim_hw_def mspm0_hdr_def)
  have loaded: "I2C_mstr_send_internal mspm0_hdr ?h 0x27 ramp 1 I2C_END [] =
                  Some (send_burst mspm0_hdr ?h 0x27 1 I2C_END ?pre)"
    by (simp add: I2C_mstr_send_internal_def idle_wait_def sim_defs ramp_def
        spin_stop I2C_fill_tx_fifo_def fill_loop_go fill_loop_stop push_bit_eq_mult ret_codes)
  have after_burst: "\<forall>t. MCTR \<in> fst ` set (writes t) \<longrightarrow>
                       ?h t MSR AND MSR_BUSY_MASK mspm0_hdr = MSR_BUSY_SET mspm0_hdr"
    using stuck by simp
  have no_wait: "I2C_END = I2C_NORMAL \<longrightarrow>
                   ?h [] MSR AND MSR_IDLE_MASK mspm0_hdr \<noteq> MSR_IDLE_CLEARED mspm0_hdr"
    by simp
  note tc = timeout_sources [where L = mspm0_hdr and h = "?h" and slave = "0x27"
      and buffer = ramp and data = ramp and len = 1 and ty = I2C_END and tr = "[]"
      and r = I2C_ERR_TIMEOUT
      and tr' = "snd (the (I2C_mstr_send_internal mspm0_hdr ?h 0x27 ramp 1 I2C_END []))"
      and rr = I2C_ERR_TIMEOUT and buffer' = ramp and tr'' = "[]"]
  from tc queue flush fits no_wait after_burst
  have "\<exists>pre ps. I2C_mstr_send_internal mspm0_hdr ?h 0x27 ramp 1 I2C_END [] =
             Some (I2C_ERR_TIMEOUT,
                   [] @ pre @ [Wr MSA (send_msa mspm0_hdr 0x27), Wr MCTR (send_mctr mspm0_hdr 1 I2C_END)] @
                   poll_events ps) \<and>
           bus_writes pre = [] \<and> length ps = 200000 \<and>
           (\<forall>v\<in>set ps. v AND MSR_BUSY_MASK mspm0_hdr = MSR_BUSY_SET mspm0_hdr)"
    by blast
  then obtain pre ps
    where timed_out: "I2C_mstr_send_internal mspm0_hdr ?h 0x27 ramp 1 I2C_END [] =
             Some (I2C_ERR_TIMEOUT,
                   [] @ pre @ [Wr MSA (send_msa mspm0_hdr 0x27), Wr MCTR (send_mctr mspm0_hdr 1 I2C_END)] @
                   poll_events ps)"
      and pre: "bus_writes pre = []" and ps: "length ps = 200000"
    by (elim exE conjE) (rule that; assumption)
  from tc no_wait after_burst
  have hangs: "I2C_mstr_read_internal mspm0_hdr ?h 0x27 ramp 1 I2C_END [] = None"
    by blast
  let ?tail = "[Wr MSA (send_msa mspm0_hdr 0x27), Wr MCTR (send_mctr mspm0_hdr 1 I2C_END)]"
  have burst: "send_burst mspm0_hdr ?h 0x27 1 I2C_END ?pre =
                 (I2C_ERR_TIMEOUT, pre @ ?tail @ poll_events ps)"
    using loaded timed_out by simp
  have "MCTR \<in> fst ` set (writes t) \<Longrightarrow>
          ?h t MSR AND MSR_BUSY_MASK mspm0_hdr = MSR_BUSY_SET mspm0_hdr" for t
    using stuck by simp
  from send_burst_times_out [of ?h mspm0_hdr "0x27" 1 I2C_END ?pre, OF this] obtain qs
    where "send_burst mspm0_hdr ?h 0x27 1 I2C_END ?pre =
             (I2C_ERR_TIMEOUT, ?pre @ ?tail @ poll_events qs)"
      and qs: "length qs = 200000"
    by blast
  with burst have trace: "pre @ ?tail @ poll_events ps = ?pre @ ?tail @ poll_events qs"
    by simp
  have words: "send_msa mspm0_hdr 0x27 = 0x4E" "send_mctr mspm0_hdr 1 I2C_END = 0x10007"
    by (simp_all add: send_msa_def send_mctr_def mspm0_hdr_def push_bit_eq_mult)
  have "bus_writes (pre @ [Wr MSA (send_msa mspm0_hdr 0x27),
                     Wr MCTR (send_mctr mspm0_hdr 1 I2C_END)] @ poll_events ps)
          = [(MSA, 0x4E), (MCTR, 0x10007)]"
    using pre words by (simp add: bus_writes_append bus_writes_def)
  moreover have "take 9 (pre @ [Wr MSA (send_msa mspm0_hdr 0x27),
                     Wr MCTR (send_mctr mspm0_hdr 1 I2C_END)] @ poll_events ps)
                  = ?pre @ [Wr MSA 0x4E, Wr MCTR 0x10007]"
    unfolding trace using words by simp
  moreover have "length (filter (\<lambda>x. fst x = MSR)
                   (reads (pre @ [Wr MSA (send_msa mspm0_hdr 0x27),
                     Wr MCTR (send_mctr mspm0_hdr 1 I2C_END)] @ poll_events ps))) = 200000"
    unfolding trace using qs by (simp add: reads_append filter_map o_def)
  ultimately show ?thesis
    using busy received sent polls queue flush stuck timed_out hangs by simp
qed

subsection \<open>The idle wait\<close>

text \<open>
  C4. Both engines enter the idle wait exactly for \<^verbatim>\<open>I2C_NORMAL\<close>: the first event
  of a call is then a read of MSR, and for the three other types it is the read of
  MFIFOCTL that starts the flush. When the bus never reports idle, a call of type
  \<^verbatim>\<open>I2C_NORMAL\<close> returns \<^verbatim>\<open>I2C_ERR_TIMEOUT\<close> after exactly 200000 reads of MSR,
  with a delay of 10 microseconds between two reads and nothing else: no register is
  written, and the receive buffer is as it was.
\<close>

theorem idle_wait_normal_only:
  "(I2C_mstr_send_internal L h slave data len ty tr = Some (r, tr') \<longrightarrow>
      (\<exists>ev. tr' = tr @ ev \<and> ev \<noteq> [] \<and>
            hd ev = (if ty = I2C_NORMAL then Rd MSR (h tr MSR) else Rd MFIFOCTL (h tr MFIFOCTL)))) \<and>
   (I2C_mstr_read_internal L h slave buffer len ty tr = Some (rr, buffer', tr'') \<longrightarrow>
      (\<exists>ev. tr'' = tr @ ev \<and> ev \<noteq> [] \<and>
            hd ev = (if ty = I2C_NORMAL then Rd MSR (h tr MSR) else Rd MFIFOCTL (h tr MFIFOCTL)))) \<and>
   ((\<forall>t. h t MSR AND MSR_IDLE_MASK L = MSR_IDLE_CLEARED L) \<longrightarrow>
      (\<exists>vs. length vs = 200000 \<and>
            (\<forall>v\<in>set vs. v AND MSR_IDLE_MASK L = MSR_IDLE_CLEARED L) \<and>
            writes (poll_events vs) = [] \<and>
            I2C_mstr_send_internal L h slave data len I2C_NORMAL tr
              = Some (I2C_ERR_TIMEOUT, tr @ poll_events vs) \<and>
            I2C_mstr_read_internal L h slave buffer len I2C_NORMAL tr
              = Some (I2C_ERR_TIMEOUT, buffer, tr @ poll_events vs)))"
proof (intro conjI impI)
  assume "I2C_mstr_send_internal L h slave data len ty tr = Some (r, tr')"
  then show "\<exists>ev. tr' = tr @ ev \<and> ev \<noteq> [] \<and>
            hd ev = (if ty = I2C_NORMAL then Rd MSR (h tr MSR) else Rd MFIFOCTL (h tr MFIFOCTL))"
    by (rule send_first_event)
next
  assume "I2C_mstr_read_internal L h slave buffer len ty tr = Some (rr, buffer', tr'')"
  then show "\<exists>ev. tr'' = tr @ ev \<and> ev \<noteq> [] \<and>
            hd ev = (if ty = I2C_NORMAL then Rd MSR (h tr MSR) else Rd MFIFOCTL (h tr MFIFOCTL))"
    by (rule read_first_event)
next
  assume "\<forall>t. h t MSR AND MSR_IDLE_MASK L = MSR_IDLE_CLEARED L"
  then have "\<And>t. h t MSR AND MSR_IDLE_MASK L = MSR_IDLE_CLEARED L"
    by simp
  from idle_wait_never_idle [of h L tr, OF this] obtain vs
    where vs: "idle_wait L h I2C_NORMAL tr = (True, tr @ poll_events vs)" "length vs = 200000"
      "\<forall>v\<in>set vs. v AND MSR_IDLE_MASK L = MSR_IDLE_CLEARED L"
    by blast
  then show "\<exists>vs. length vs = 200000 \<and>
            (\<forall>v\<in>set vs. v AND MSR_IDLE_MASK L = MSR_IDLE_CLEARED L) \<and>
            writes (poll_events vs) = [] \<and>
            I2C_mstr_send_internal L h slave data len I2C_NORMAL tr
              = Some (I2C_ERR_TIMEOUT, tr @ poll_events vs) \<and>
            I2C_mstr_read_internal L h slave buffer len I2C_NORMAL tr
              = Some (I2C_ERR_TIMEOUT, buffer, tr @ poll_events vs)"
    by (intro exI [of _ vs])
       (simp add: I2C_mstr_send_internal_def I2C_mstr_read_internal_def)
qed

text \<open>
  The theorem at a concrete input: \<^verbatim>\<open>I2C_mstr_send1(0x27, 0x00)\<close> on a controller whose
  MSR always reads 0 (idle bit clear).
\<close>

theorem idle_wait_normal_only_witness:
  "(\<forall>t. sim_hw 0 ramp t MSR AND MSR_IDLE_MASK mspm0_hdr = MSR_IDLE_CLEARED mspm0_hdr) \<and>
   map_option fst (I2C_mstr_send1 mspm0_hdr (sim_hw 0 ramp) 0x27 0 []) = Some I2C_ERR_TIMEOUT \<and>
   map_option fst (I2C_mstr_read1 mspm0_hdr (sim_hw 0 ramp) 0x27 ramp []) = Some I2C_ERR_TIMEOUT \<and>
   map_option (length \<circ> snd) (I2C_mstr_send1 mspm0_hdr (sim_hw 0 ramp) 0x27 0 []) = Some 399999"
proof -
  have never: "\<forall>t. sim_hw 0 ramp t MSR AND MSR_IDLE_MASK mspm0_hdr = MSR_IDLE_CLEARED mspm0_hdr"
    by (simp add: sim_hw_def mspm0_hdr_def)
  have len: "length (poll_events vs) = 2 * length vs - 1" for vs
    by (induction vs rule: poll_events.induct) simp_all
  from idle_wait_normal_only [where L = mspm0_hdr and h = "sim_hw 0 ramp" and slave = "0x27"
      and data = "\<lambda>k. 0" and len = 1 and buffer = ramp and tr = "[]", THEN conjunct2, THEN conjunct2]
    never
  obtain vs where "length vs = 200000"
    "I2C_mstr_send_internal mspm0_hdr (sim_hw 0 ramp) 0x27 (\<lambda>k. 0) 1 I2C_NORMAL []
       = Some (I2C_ERR_TIMEOUT, [] @ poll_events vs)"
    "I2C_mstr_read_internal mspm0_hdr (sim_hw 0 ramp) 0x27 ramp 1 I2C_NORMAL []
       = Some (I2C_ERR_TIMEOUT, ramp, [] @ poll_events vs)"
    by blast
  with never show ?thesis
    by (simp add: I2C_mstr_send1_def I2C_mstr_read1_def len)
qed

subsection \<open>The order of the status flags\<close>




subsection \<open>More bytes than the transmit queue holds\<close>

text \<open>
  C6. On hardware whose transmit queue holds eight bytes, with the bus idle when an
  \<^verbatim>\<open>I2C_NORMAL\<close> call starts, a send call returns; it returns
  \<^verbatim>\<open>I2C_FIFO_LOAD_ERROR\<close> exactly when its length is above eight, and it has then
  written every one of its bytes to MTXDATA, in order. On any hardware, the fill routine,
  called with a count that fits its 8-bit index, checks MFIFOSR once before each byte,
  writes all the bytes, and returns 0 exactly when one of the checks read a free-space
  field of zero (1 otherwise).
\<close>

theorem fifo_overflow:
  "(tx_queue8 L h \<and> MFIFOCTL_TXFLUSH_FLUSH L \<noteq> 0 \<and>
    (ty = I2C_NORMAL \<longrightarrow> h tr MSR AND MSR_IDLE_MASK L \<noteq> MSR_IDLE_CLEARED L) \<longrightarrow>
      (\<exists>r tr'. I2C_mstr_send_internal L h slave data len ty tr = Some (r, tr') \<and>
         (r = I2C_FIFO_LOAD_ERROR \<longleftrightarrow> 8 < unat len) \<and>
         map snd (filter (\<lambda>(r, v). r = MTXDATA) (writes (drop (length tr) tr'))) =
           map (\<lambda>k. ucast (data k)) [0..<unat len])) \<and>
   (unat count \<le> 255 \<longrightarrow>
      (\<exists>ev. I2C_fill_tx_fifo L h buffer count tr =
               Some (if \<exists>v. (MFIFOSR, v) \<in> set (reads ev) \<and> v AND MFIFOSR_TXFIFOCNT_MASK L = 0
                     then 0 else 1, tr @ ev) \<and>
            writes ev = map (\<lambda>k. (MTXDATA, ucast (buffer k))) [0..<unat count] \<and>
            length (reads ev) = unat count \<and> fst ` set (reads ev) \<subseteq> {MFIFOSR}))"
proof (intro conjI impI)
  assume hyp: "tx_queue8 L h \<and> MFIFOCTL_TXFLUSH_FLUSH L \<noteq> 0 \<and>
    (ty = I2C_NORMAL \<longrightarrow> h tr MSR AND MSR_IDLE_MASK L \<noteq> MSR_IDLE_CLEARED L)"
  from hyp send_on_queue8 [of L h ty tr data len] obtain tr0 tr1 tr2
    where phases: "idle_wait L h ty tr = (False, tr0)"
      "spin h MFIFOSR (\<lambda>v. v AND MFIFOSR_TXFIFOCNT_MASK L \<noteq> MFIFOSR_TXFIFOCNT_MAXIMUM L)
         (set_bits h MFIFOCTL (MFIFOCTL_TXFLUSH_FLUSH L) tr0) = Some tr1"
      "I2C_fill_tx_fifo L h data (ucast len) (clear_bits h MFIFOCTL (MFIFOCTL_TXFLUSH_MASK L) tr1)
         = Some (if 8 < unat len then 0 else 1, tr2)"
    by blast
  from send_load_shape [OF phases] obtain pre
    where pre: "tr2 = tr @ pre"
      "map snd (filter (\<lambda>(r, v). r = MTXDATA) (writes pre)) = map (\<lambda>k. ucast (data k)) [0..<unat len]"
    by (elim exE conjE) (rule that; assumption)
  show "\<exists>r tr'. I2C_mstr_send_internal L h slave data len ty tr = Some (r, tr') \<and>
         (r = I2C_FIFO_LOAD_ERROR \<longleftrightarrow> 8 < unat len) \<and>
         map snd (filter (\<lambda>(r, v). r = MTXDATA) (writes (drop (length tr) tr'))) =
           map (\<lambda>k. ucast (data k)) [0..<unat len]"
  proof (cases "8 < unat len")
    case True
    with phases pre show ?thesis
      by (intro exI [of _ I2C_FIFO_LOAD_ERROR] exI [of _ tr2])
         (simp add: I2C_mstr_send_internal_def ret_codes)
  next
    case False
    obtain r tr' where burst: "send_burst L h slave len ty tr2 = (r, tr')"
      by (cases "send_burst L h slave len ty tr2")
    with send_burst_codes [of L h slave len ty tr2] have "r \<noteq> I2C_FIFO_LOAD_ERROR"
      by (auto simp: ret_codes)
    moreover from send_burst_shape [OF burst] obtain vs post
      where "tr' = tr2 @ [Wr MSA (send_msa L slave), Wr MCTR (send_mctr L len ty)] @
                   poll_events vs @ map (Rd MSR) post"
      by (elim exE conjE) (rule that; assumption)
    ultimately show ?thesis
      using False phases burst pre
      by (intro exI [of _ r] exI [of _ tr'])
         (simp add: I2C_mstr_send_internal_def ret_codes)
  qed
next
  assume "unat count \<le> 255"
  have "unat (0 :: 8 word) \<le> unat count"
    by simp
  from fill_loop_total [OF \<open>unat count \<le> 255\<close> this, of L h buffer 1 tr] obtain ev
    where "fill_loop L h buffer count 0 1 tr =
             Some (if \<exists>v. (MFIFOSR, v) \<in> set (reads ev) \<and> v AND MFIFOSR_TXFIFOCNT_MASK L = 0
                   then 0 else 1, tr @ ev)"
      "writes ev = map (\<lambda>k. (MTXDATA, ucast (buffer k))) [unat (0 :: 8 word)..<unat count]"
      "length (reads ev) = unat count - unat (0 :: 8 word)" "fst ` set (reads ev) \<subseteq> {MFIFOSR}"
    by (elim exE conjE) (rule that; assumption)
  then show "\<exists>ev. I2C_fill_tx_fifo L h buffer count tr =
               Some (if \<exists>v. (MFIFOSR, v) \<in> set (reads ev) \<and> v AND MFIFOSR_TXFIFOCNT_MASK L = 0
                     then 0 else 1, tr @ ev) \<and>
            writes ev = map (\<lambda>k. (MTXDATA, ucast (buffer k))) [0..<unat count] \<and>
            length (reads ev) = unat count \<and> fst ` set (reads ev) \<subseteq> {MFIFOSR}"
    by (intro exI [of _ ev]) (simp add: I2C_fill_tx_fifo_def)
qed

text \<open>
  The theorem on a send of nine bytes to the simulated controller, whose transmit queue
  has eight entries.
\<close>

theorem fifo_overflow_witness:
  "tx_queue8 mspm0_hdr (sim_hw 0x20 ramp) \<and> MFIFOCTL_TXFLUSH_FLUSH mspm0_hdr \<noteq> 0 \<and>
   sim_hw 0x20 ramp [] MSR AND MSR_IDLE_MASK mspm0_hdr \<noteq> MSR_IDLE_CLEARED mspm0_hdr \<and>
   8 < unat (9 :: 8 word) \<and> unat (9 :: 16 word) \<le> 255 \<and>
   map_option fst (I2C_mstr_send_internal mspm0_hdr (sim_hw 0x20 ramp) 0x27 ramp 9 I2C_NORMAL [])
     = Some I2C_FIFO_LOAD_ERROR \<and>
   map_option (length \<circ> writes \<circ> snd)
     (I2C_fill_tx_fifo mspm0_hdr (sim_hw 0x20 ramp) ramp 9 []) = Some 9"
proof -
  have queue: "tx_queue8 mspm0_hdr (sim_hw 0x20 ramp)"
    by (rule sim_hw_queue8)
  have flush: "MFIFOCTL_TXFLUSH_FLUSH mspm0_hdr \<noteq> 0"
    by (simp add: mspm0_hdr_def)
  have idle: "sim_hw 0x20 ramp [] MSR AND MSR_IDLE_MASK mspm0_hdr \<noteq> MSR_IDLE_CLEARED mspm0_hdr"
    by (simp add: sim_hw_def mspm0_hdr_def)
  have sizes: "8 < unat (9 :: 8 word)" "unat (9 :: 16 word) \<le> 255"
    by simp_all
  note fo = fifo_overflow [where L = mspm0_hdr and h = "sim_hw 0x20 ramp" and ty = I2C_NORMAL
      and tr = "[]" and slave = "0x27" and data = ramp and len = 9 and count = 9 and buffer = ramp]
  from fo queue flush idle sizes(1) obtain tr'
    where "I2C_mstr_send_internal mspm0_hdr (sim_hw 0x20 ramp) 0x27 ramp 9 I2C_NORMAL []
             = Some (I2C_FIFO_LOAD_ERROR, tr')"
    by blast
  moreover from fo sizes(2) obtain ret ev
    where "I2C_fill_tx_fifo mspm0_hdr (sim_hw 0x20 ramp) ramp 9 [] = Some (ret, [] @ ev)"
      "writes ev = map (\<lambda>k. (MTXDATA, ucast (ramp k))) [0..<unat (9 :: 16 word)]"
    by blast
  ultimately show ?thesis
    using queue flush idle by simp
qed

subsection \<open>The occupancy wait and the drain\<close>



subsection \<open>The public functions delegate\<close>

text \<open>
  C8. Each of the ten public functions returns what the engine returns on the same
  arguments with the burst type fixed: \<^verbatim>\<open>I2C_NORMAL\<close> for send1, send, read1 and
  read (send1 and read1 with length 1), \<^verbatim>\<open>I2C_START\<close>, \<^verbatim>\<open>I2C_CONTINUE\<close> and
  \<^verbatim>\<open>I2C_END\<close> for the start, continue and end variants. Nothing is added: the
  result and the events are those of the engine.
\<close>

theorem facade_delegates:
  "I2C_mstr_send1 L h slave byte tr = I2C_mstr_send_internal L h slave (\<lambda>k. byte) 1 I2C_NORMAL tr \<and>
   I2C_mstr_send L h slave data len tr = I2C_mstr_send_internal L h slave data len I2C_NORMAL tr \<and>
   I2C_mstr_send_start L h slave data len tr = I2C_mstr_send_internal L h slave data len I2C_START tr \<and>
   I2C_mstr_send_continue L h slave data len tr =
     I2C_mstr_send_internal L h slave data len I2C_CONTINUE tr \<and>
   I2C_mstr_send_end L h slave data len tr = I2C_mstr_send_internal L h slave data len I2C_END tr \<and>
   I2C_mstr_read1 L h slave buffer tr = I2C_mstr_read_internal L h slave buffer 1 I2C_NORMAL tr \<and>
   I2C_mstr_read L h slave buffer len tr = I2C_mstr_read_internal L h slave buffer len I2C_NORMAL tr \<and>
   I2C_mstr_read_start L h slave buffer len tr =
     I2C_mstr_read_internal L h slave buffer len I2C_START tr \<and>
   I2C_mstr_read_continue L h slave buffer len tr =
     I2C_mstr_read_internal L h slave buffer len I2C_CONTINUE tr \<and>
   I2C_mstr_read_end L h slave buffer len tr = I2C_mstr_read_internal L h slave buffer len I2C_END tr"
  unfolding I2C_mstr_send1_def I2C_mstr_send_def I2C_mstr_send_start_def
    I2C_mstr_send_continue_def I2C_mstr_send_end_def I2C_mstr_read1_def I2C_mstr_read_def
    I2C_mstr_read_start_def I2C_mstr_read_continue_def I2C_mstr_read_end_def
  by simp

subsection \<open>A failed receive leaves the buffer alone\<close>

text \<open>
  C9. A receive call that returns anything but \<^verbatim>\<open>I2C_SUCCESS\<close> leaves the caller's
  buffer as it was and has not read MRXDATA: a call that has read MRXDATA returns
  \<^verbatim>\<open>I2C_SUCCESS\<close>.
\<close>

theorem failed_read_keeps_buffer:
  "I2C_mstr_read_internal L h slave buffer len ty tr = Some (r, buffer', tr') \<longrightarrow>
     (r \<noteq> I2C_SUCCESS \<longrightarrow>
        buffer' = buffer \<and> MRXDATA \<notin> fst ` set (reads (drop (length tr) tr'))) \<and>
     (MRXDATA \<in> fst ` set (reads (drop (length tr) tr')) \<longrightarrow> r = I2C_SUCCESS)"
  using failed_read_untouched by blast

text \<open>
  The theorem on a receive of three bytes from a controller that shows the arbitration
  and error flags.
\<close>

theorem failed_read_keeps_buffer_witness:
  "I2C_mstr_read_internal mspm0_hdr (sim_hw 0x32 ramp) 0x27 ramp 3 I2C_START [] =
     Some (I2C_ERR_ARB_LOST, ramp,
       [Rd MFIFOCTL 0, Wr MFIFOCTL 0x8000, Rd MFIFOSR 0x800, Rd MFIFOCTL 0, Wr MFIFOCTL 0,
        Wr MSA 0x4F, Wr MCTR 0x3000B, Rd MSR 0x32, Rd MSR 0x32, Rd MFIFOSR 0x803]) \<and>
   I2C_ERR_ARB_LOST \<noteq> I2C_SUCCESS"
proof -
  let ?tr = "[Rd MFIFOCTL 0, Wr MFIFOCTL 0x8000, Rd MFIFOSR 0x800, Rd MFIFOCTL 0, Wr MFIFOCTL 0,
        Wr MSA 0x4F, Wr MCTR 0x3000B, Rd MSR 0x32, Rd MSR 0x32, Rd MFIFOSR 0x803]"
  obtain buffer' where received:
    "I2C_mstr_read_internal mspm0_hdr (sim_hw 0x32 ramp) 0x27 ramp 3 I2C_START [] =
       Some (I2C_ERR_ARB_LOST, buffer', ?tr)"
    by (simp add: run_simps)
  have code: "I2C_ERR_ARB_LOST \<noteq> I2C_SUCCESS"
    by (simp add: ret_codes)
  from failed_read_keeps_buffer [where L = mspm0_hdr and h = "sim_hw 0x32 ramp" and slave = "0x27"
      and buffer = ramp and len = 3 and ty = I2C_START and tr = "[]" and r = I2C_ERR_ARB_LOST
      and buffer' = buffer' and tr' = "?tr"] received code
  have "buffer' = ramp"
    by blast
  with received code show ?thesis
    by simp
qed

subsection \<open>A receive call waits for the queue even when it failed\<close>

text \<open>
  C10. A receive call that returns anything but \<^verbatim>\<open>I2C_ERR_TIMEOUT\<close>, whatever the
  status flags were classified as, has read an occupancy count that is not below the
  length; when it failed, that read is its last event. On hardware whose occupancy count
  stays below the length, a receive call returns only from the idle wait, and a call that
  passes the idle wait does not return.
\<close>

theorem failed_read_waits_for_queue:
  "(I2C_mstr_read_internal L h slave buffer len ty tr = Some (r, buffer', tr') \<and>
    r \<noteq> I2C_ERR_TIMEOUT \<longrightarrow>
      (\<exists>before c ws. tr' = tr @ before @ [Rd MFIFOSR c] @ drain_events ws \<and>
         \<not> rx_count L c < ucast len \<and> (r \<noteq> I2C_SUCCESS \<longrightarrow> ws = []))) \<and>
   ((\<forall>t. rx_count L (h t MFIFOSR) < ucast len) \<longrightarrow>
      (I2C_mstr_read_internal L h slave buffer len ty tr = Some (r, buffer', tr') \<longrightarrow>
         r = I2C_ERR_TIMEOUT) \<and>
      ((ty = I2C_NORMAL \<longrightarrow> h tr MSR AND MSR_IDLE_MASK L \<noteq> MSR_IDLE_CLEARED L) \<longrightarrow>
         I2C_mstr_read_internal L h slave buffer len ty tr = None))"
proof (intro conjI impI)
  assume "I2C_mstr_read_internal L h slave buffer len ty tr = Some (r, buffer', tr') \<and>
    r \<noteq> I2C_ERR_TIMEOUT"
  then have "I2C_mstr_read_internal L h slave buffer len ty tr = Some (r, buffer', tr')"
    and "r \<noteq> I2C_ERR_TIMEOUT"
    by simp_all
  from read_trace [OF this] obtain pre ss cs c ws
    where "tr' = tr @ pre @ [Wr MSA (read_msa L slave), Wr MCTR (read_mctr L len ty)] @
                 map (Rd MSR) ss @ map (Rd MFIFOSR) cs @ [Rd MFIFOSR c] @ drain_events ws"
      "\<not> rx_count L c < ucast len"
      "if r = I2C_SUCCESS then length ws = unat len else ws = [] \<and> buffer' = buffer"
    by (elim exE conjE) (rule that; assumption)
  then show "\<exists>before c ws. tr' = tr @ before @ [Rd MFIFOSR c] @ drain_events ws \<and>
         \<not> rx_count L c < ucast len \<and> (r \<noteq> I2C_SUCCESS \<longrightarrow> ws = [])"
    by (intro exI [of _ "pre @ [Wr MSA (read_msa L slave), Wr MCTR (read_mctr L len ty)] @
                 map (Rd MSR) ss @ map (Rd MFIFOSR) cs"] exI [of _ c] exI [of _ ws])
       (simp split: if_splits)
next
  assume "\<forall>t. rx_count L (h t MFIFOSR) < ucast len"
    and "I2C_mstr_read_internal L h slave buffer len ty tr = Some (r, buffer', tr')"
  then show "r = I2C_ERR_TIMEOUT"
    using read_never_filled(1) [of L h len slave buffer ty tr r buffer' tr'] by simp
next
  assume "\<forall>t. rx_count L (h t MFIFOSR) < ucast len"
    and "ty = I2C_NORMAL \<longrightarrow> h tr MSR AND MSR_IDLE_MASK L \<noteq> MSR_IDLE_CLEARED L"
  then show "I2C_mstr_read_internal L h slave buffer len ty tr = None"
    using read_never_filled(2) [of L h len ty tr slave buffer] by simp
qed

text \<open>
  The theorem on the simulated controller, whose receive queue has eight entries: a
  receive of three bytes with the arbitration flag set returns once the queue holds
  three; a receive of nine bytes does not return on an idle bus, and returns from the
  idle wait on a bus that is never idle.
\<close>

theorem failed_read_waits_for_queue_witness:
  "map_option fst (I2C_mstr_read_internal mspm0_hdr (sim_hw 0x32 ramp) 0x27 ramp 3 I2C_START [])
     = Some I2C_ERR_ARB_LOST \<and>
   I2C_ERR_ARB_LOST \<noteq> I2C_ERR_TIMEOUT \<and>
   map_option (last \<circ> snd \<circ> snd)
     (I2C_mstr_read_internal mspm0_hdr (sim_hw 0x32 ramp) 0x27 ramp 3 I2C_START [])
     = Some (Rd MFIFOSR 0x803) \<and>
   (\<forall>t. rx_count mspm0_hdr (sim_hw 0x20 ramp t MFIFOSR) < ucast (9 :: 8 word)) \<and>
   sim_hw 0x20 ramp [] MSR AND MSR_IDLE_MASK mspm0_hdr \<noteq> MSR_IDLE_CLEARED mspm0_hdr \<and>
   I2C_mstr_read_internal mspm0_hdr (sim_hw 0x20 ramp) 0x27 ramp 9 I2C_NORMAL [] = None \<and>
   map_option fst (I2C_mstr_read_internal mspm0_hdr (sim_hw 0 ramp) 0x27 ramp 9 I2C_NORMAL [])
     = Some I2C_ERR_TIMEOUT"
proof -
  let ?tr = "[Rd MFIFOCTL 0, Wr MFIFOCTL 0x8000, Rd MFIFOSR 0x800, Rd MFIFOCTL 0, Wr MFIFOCTL 0,
        Wr MSA 0x4F, Wr MCTR 0x3000B, Rd MSR 0x32, Rd MSR 0x32, Rd MFIFOSR 0x803]"
  have failed: "I2C_mstr_read_internal mspm0_hdr (sim_hw 0x32 ramp) 0x27 ramp 3 I2C_START [] =
       Some (I2C_ERR_ARB_LOST, ramp, ?tr)"
    by (simp add: run_simps)
  have code: "I2C_ERR_ARB_LOST \<noteq> I2C_ERR_TIMEOUT" "I2C_ERR_ARB_LOST \<noteq> I2C_SUCCESS"
    by (simp_all add: ret_codes)
  from failed_read_waits_for_queue [where L = mspm0_hdr and h = "sim_hw 0x32 ramp"
      and slave = "0x27" and buffer = ramp and len = 3 and ty = I2C_START and tr = "[]"
      and r = I2C_ERR_ARB_LOST and buffer' = ramp and tr' = "?tr"] failed code
  obtain before c where "?tr = [] @ before @ [Rd MFIFOSR c] @ drain_events []"
    by blast
  then have "last ?tr = Rd MFIFOSR c"
    by (metis append.right_neutral append_Nil drain_events.simps(1) last_snoc)
  then have last_event: "last ?tr = Rd MFIFOSR 0x803"
    by simp
  have small: "\<forall>t. rx_count mspm0_hdr (sim_hw 0x20 ramp t MFIFOSR) < ucast (9 :: 8 word)"
    using sim_hw_rx_below_nine by blast
  have idle: "sim_hw 0x20 ramp [] MSR AND MSR_IDLE_MASK mspm0_hdr \<noteq> MSR_IDLE_CLEARED mspm0_hdr"
    by (simp add: sim_hw_def mspm0_hdr_def)
  from failed_read_waits_for_queue [where L = mspm0_hdr and h = "sim_hw 0x20 ramp"
      and slave = "0x27" and buffer = ramp and len = 9 and ty = I2C_NORMAL and tr = "[]"]
    small idle
  have hangs: "I2C_mstr_read_internal mspm0_hdr (sim_hw 0x20 ramp) 0x27 ramp 9 I2C_NORMAL [] = None"
    by blast
  have "sim_hw 0 ramp t MSR AND MSR_IDLE_MASK mspm0_hdr = MSR_IDLE_CLEARED mspm0_hdr" for t
    by (simp add: sim_hw_def mspm0_hdr_def)
  from idle_wait_never_idle [of "sim_hw 0 ramp" mspm0_hdr "[]", OF this] obtain vs
    where "idle_wait mspm0_hdr (sim_hw 0 ramp) I2C_NORMAL [] = (True, [] @ poll_events vs)"
    by blast
  then obtain r buffer' tr'
    where busy_bus: "I2C_mstr_read_internal mspm0_hdr (sim_hw 0 ramp) 0x27 ramp 9 I2C_NORMAL []
                       = Some (r, buffer', tr')"
    by (simp add: I2C_mstr_read_internal_def)
  have "\<forall>t. rx_count mspm0_hdr (sim_hw 0 ramp t MFIFOSR) < ucast (9 :: 8 word)"
    using sim_hw_rx_below_nine by blast
  with failed_read_waits_for_queue [where L = mspm0_hdr and h = "sim_hw 0 ramp"
      and slave = "0x27" and buffer = ramp and len = 9 and ty = I2C_NORMAL and tr = "[]"
      and r = r and buffer' = buffer' and tr' = tr'] busy_bus
  have "r = I2C_ERR_TIMEOUT"
    by blast
  with failed code last_event small idle hangs busy_bus show ?thesis
    by simp
qed

end
